theory Spec2Isabelle
  imports Main "HOL-Library.Multiset"
begin

section \<open>Errors raised by the library layer (lib/nostr)\<close>

text \<open>
  Every \<^verbatim>\<open>throw new Error(...)\<close> of the three service modules, one constructor per
  message. A function that can throw returns \<open>error + 'a\<close>, with \<open>Inl\<close> for the throw.
\<close>

datatype error =
    NoPrivateKeyAvailable
  | FailedToPublishEvent
  | FailedToConnectToRelay string
  | FailedToConnectToRelays
  | InvalidNpubFormat
  | InvalidNsecFormat

section \<open>Calls into the packages\<close>

text \<open>
  The services call the packages nostr-tools and @noble/hashes. A call either throws or
  returns; a returned promise, once settled, is fulfilled with a value or rejected. What
  a package call does is a parameter of the functions below.
\<close>

datatype 'a call = Throws | Returns 'a

datatype 'a promise_result = Fulfilled 'a | Rejected

text \<open>\<^verbatim>\<open>result.status === 'fulfilled'\<close> of a settled promise.\<close>

definition is_fulfilled :: "'a promise_result \<Rightarrow> bool" where
  "is_fulfilled result = (case result of Fulfilled v \<Rightarrow> True | Rejected \<Rightarrow> False)"

section \<open>Relay management (relays.ts)\<close>

subsection \<open>State of the module and of the browser it runs in\<close>

text \<open>
  The module keeps two variables, \<^verbatim>\<open>pool\<close> (a \<^verbatim>\<open>SimplePool\<close> or \<^verbatim>\<open>null\<close>) and
  \<^verbatim>\<open>activeRelays\<close> (a record from URL to relay handle), and it reads and writes the
  \<^verbatim>\<open>localStorage\<close> item \<^verbatim>\<open>nostr_relays\<close>.

  The pool is an object of the nostr-tools package. The module only calls it, so the
  pool is represented by the calls it has received since it was created.

  The storage item is \<open>NoItem\<close> when \<^verbatim>\<open>getItem\<close> gives \<^verbatim>\<open>null\<close> or the empty string
  (both are falsy), \<open>Unparsable\<close> when \<^verbatim>\<open>JSON.parse\<close> throws on it, and \<open>Item rs\<close> when
  it is the JSON text of the string array \<open>rs\<close> (what \<^verbatim>\<open>JSON.stringify\<close> writes
  for \<open>rs\<close>).
\<close>

datatype pool_call = EnsureRelay string | Close "string list"

datatype relays_item = NoItem | Unparsable | Item "string list"

record browser =
  has_window :: bool
  setItem_throws :: bool
  nostr_relays :: relays_item
  nostr_private_key :: "string option"

record 'r relays_state = browser +
  pool :: "pool_call list option"
  activeRelays :: "string \<rightharpoonup> 'r"

definition DEFAULT_RELAYS :: "string list" where
  "DEFAULT_RELAYS =
     [''wss://relay.damus.io'', ''wss://nos.lol'', ''wss://relay.nostr.band'',
      ''wss://relay.snort.social'']"

subsection \<open>The persisted relay list\<close>

definition saveRelays :: "string list \<Rightarrow> 'r relays_state \<Rightarrow> 'r relays_state" where
  "saveRelays relays s =
     (if has_window s then
        (if setItem_throws s then s else s\<lparr>nostr_relays := Item relays\<rparr>)
      else s)"

definition getSavedRelays :: "'r relays_state \<Rightarrow> string list" where
  "getSavedRelays s =
     (if has_window s then
        (case nostr_relays s of
           NoItem \<Rightarrow> DEFAULT_RELAYS
         | Unparsable \<Rightarrow> DEFAULT_RELAYS
         | Item rs \<Rightarrow> rs)
      else DEFAULT_RELAYS)"

subsection \<open>The pool and the active connections\<close>

definition getPool :: "'r relays_state \<Rightarrow> pool_call list \<times> 'r relays_state" where
  "getPool s =
     (case pool s of
        None \<Rightarrow> ([], s\<lparr>pool := Some []\<rparr>)
      | Some p \<Rightarrow> (p, s))"

definition closePool :: "'r relays_state \<Rightarrow> 'r relays_state" where
  "closePool s =
     (case pool s of
        Some p \<Rightarrow> s\<lparr>pool := None, activeRelays := Map.empty\<rparr>
      | None \<Rightarrow> s)"

text \<open>
  \<^verbatim>\<open>p.ensureRelay(url)\<close> is a call into the package. Its outcome is a parameter of the
  model: the call throws before it returns a promise, or its promise is fulfilled with a
  relay handle, or its promise is rejected (the handshake failed or timed out).
\<close>

definition connectToRelay ::
  "(string \<Rightarrow> 'r promise_result call) \<Rightarrow> string \<Rightarrow> 'r relays_state \<Rightarrow> (error + 'r) \<times> 'r relays_state"
where
  "connectToRelay ensureRelay url s =
     (case activeRelays s url of
        Some r \<Rightarrow> (Inr r, s)
      | None \<Rightarrow>
          (let (p, s1) = getPool s;
               s2 = s1\<lparr>pool := Some (p @ [EnsureRelay url])\<rparr>
           in case ensureRelay url of
                Returns (Fulfilled relay) \<Rightarrow>
                  (Inr relay, s2\<lparr>activeRelays := (activeRelays s2)(url \<mapsto> relay)\<rparr>)
              | Returns Rejected \<Rightarrow> (Inl (FailedToConnectToRelay url), s2)
              | Throws \<Rightarrow> (Inl (FailedToConnectToRelay url), s2)))"

text \<open>
  \<^verbatim>\<open>connectToRelays\<close> maps over the URLs from left to right. A call that throws ends the
  \<^verbatim>\<open>map\<close> at once and the outer \<^verbatim>\<open>catch\<close> rethrows; no \<^verbatim>\<open>then\<close> callback has run by
  then. Otherwise every promise is given a \<^verbatim>\<open>catch\<close> that turns a rejection into
  \<^verbatim>\<open>null\<close>, \<^verbatim>\<open>Promise.all\<close> waits for all of them, each resolved promise has stored its
  relay in \<^verbatim>\<open>activeRelays\<close>, and \<^verbatim>\<open>filter(Boolean)\<close> drops the \<^verbatim>\<open>null\<close>s (a relay
  handle is an object, hence truthy).
\<close>

fun ensure_calls ::
  "(string \<Rightarrow> 'r promise_result call) \<Rightarrow> string list \<Rightarrow> pool_call list \<Rightarrow> bool \<times> pool_call list"
where
  "ensure_calls ensureRelay [] p = (True, p)"
| "ensure_calls ensureRelay (url # urls) p =
     (case ensureRelay url of
        Throws \<Rightarrow> (False, p @ [EnsureRelay url])
      | Returns _ \<Rightarrow> ensure_calls ensureRelay urls (p @ [EnsureRelay url]))"

fun settle_connection :: "(string \<Rightarrow> 'r promise_result call) \<Rightarrow> string \<Rightarrow> 'r option" where
  "settle_connection ensureRelay url =
     (case ensureRelay url of Returns (Fulfilled relay) \<Rightarrow> Some relay | _ \<Rightarrow> None)"

fun store_relays ::
  "(string \<Rightarrow> 'r promise_result call) \<Rightarrow> string list \<Rightarrow> (string \<rightharpoonup> 'r) \<Rightarrow> (string \<rightharpoonup> 'r)"
where
  "store_relays ensureRelay [] a = a"
| "store_relays ensureRelay (url # urls) a =
     store_relays ensureRelay urls
       (case ensureRelay url of Returns (Fulfilled relay) \<Rightarrow> a(url \<mapsto> relay) | _ \<Rightarrow> a)"

definition connectToRelays ::
  "(string \<Rightarrow> 'r promise_result call) \<Rightarrow> string list \<Rightarrow> 'r relays_state
     \<Rightarrow> (error + 'r list) \<times> 'r relays_state"
where
  "connectToRelays ensureRelay urls s =
     (let (p, s1) = getPool s;
          (ok, p') = ensure_calls ensureRelay urls p;
          s2 = s1\<lparr>pool := Some p'\<rparr>
      in if ok then
           (Inr (List.map_filter (settle_connection ensureRelay) urls),
            s2\<lparr>activeRelays := store_relays ensureRelay urls (activeRelays s2)\<rparr>)
         else (Inl FailedToConnectToRelays, s2))"

definition disconnectFromRelay :: "string \<Rightarrow> 'r relays_state \<Rightarrow> 'r relays_state" where
  "disconnectFromRelay url s =
     (case (activeRelays s url, pool s) of
        (Some r, Some p) \<Rightarrow>
          s\<lparr>pool := Some (p @ [Close [url]]), activeRelays := (activeRelays s)(url := None)\<rparr>
      | _ \<Rightarrow> s)"

definition addRelay :: "string \<Rightarrow> 'r relays_state \<Rightarrow> 'r relays_state" where
  "addRelay url s =
     (let relays = getSavedRelays s
      in if url \<notin> set relays then saveRelays (relays @ [url]) s else s)"

definition removeRelay :: "string \<Rightarrow> 'r relays_state \<Rightarrow> 'r relays_state" where
  "removeRelay url s =
     (let relays = getSavedRelays s;
          s1 = saveRelays (filter (\<lambda>relay. relay \<noteq> url) relays) s
      in disconnectFromRelay url s1)"

definition isRelayActive :: "'r relays_state \<Rightarrow> string \<Rightarrow> bool" where
  "isRelayActive s url = (activeRelays s url \<noteq> None)"

subsection \<open>The states the module can be in\<close>

text \<open>
  The module starts with no pool and no active relay, in any browser. Its state then
  changes only through its exported functions, each taken as one step: a call of
  \<^verbatim>\<open>connectToRelays\<close> runs to its end before the next call starts.
\<close>

inductive reachable :: "'r relays_state \<Rightarrow> bool" where
  start: "pool s = None \<Longrightarrow> activeRelays s = Map.empty \<Longrightarrow> reachable s"
| after_closePool: "reachable s \<Longrightarrow> reachable (closePool s)"
| after_connectToRelay: "reachable s \<Longrightarrow> reachable (snd (connectToRelay ensureRelay url s))"
| after_connectToRelays: "reachable s \<Longrightarrow> reachable (snd (connectToRelays ensureRelay urls s))"
| after_disconnectFromRelay: "reachable s \<Longrightarrow> reachable (disconnectFromRelay url s)"
| after_saveRelays: "reachable s \<Longrightarrow> reachable (saveRelays relays s)"
| after_addRelay: "reachable s \<Longrightarrow> reachable (addRelay url s)"
| after_removeRelay: "reachable s \<Longrightarrow> reachable (removeRelay url s)"

text \<open>An active relay was stored by a call that had a pool.\<close>

definition pool_inv :: "'r relays_state \<Rightarrow> bool" where
  "pool_inv s = (pool s \<noteq> None \<or> activeRelays s = Map.empty)"

section \<open>Keys in local storage (keys.ts)\<close>

definition getPrivateKey :: "'a browser_scheme \<Rightarrow> string option" where
  "getPrivateKey s = (if has_window s then nostr_private_key s else None)"

section \<open>Events (events.ts)\<close>

subsection \<open>Events, templates and filters\<close>

text \<open>
  An \<^verbatim>\<open>Event\<close> of nostr-tools has the fields of an \<^verbatim>\<open>EventTemplate\<close> and three more.
  \<^verbatim>\<open>created_at\<close> is a JavaScript number holding whole seconds.
\<close>

record event_template =
  kind :: int
  created_at :: int
  tags :: "string list list"
  content :: string

record event = event_template +
  id_e :: string
  pubkey :: string
  sig :: string

record filter_q =
  ids :: "string list option"
  authors :: "string list option"
  kinds :: "int list option"
  since :: "int option"
  until :: "int option"
  limit :: "int option"

definition TEXT_NOTE_KIND :: int where "TEXT_NOTE_KIND = 1"
definition METADATA_KIND :: int where "METADATA_KIND = 0"
definition REACTION_KIND :: int where "REACTION_KIND = 7"

subsection \<open>Array.prototype.sort with a comparator\<close>

text \<open>
  \<^verbatim>\<open>xs.sort(cmp)\<close> is stable: \<open>a\<close> is placed before \<open>b\<close> when \<open>cmp a b < 0\<close>, after it when
  \<open>cmp a b > 0\<close>, and two elements with \<open>cmp a b = 0\<close> keep the order they had. The model
  inserts each element, from the last to the first, in front of the first element it does
  not have to follow.
\<close>

fun insert_sorted :: "('a \<Rightarrow> 'a \<Rightarrow> int) \<Rightarrow> 'a \<Rightarrow> 'a list \<Rightarrow> 'a list" where
  "insert_sorted cmp x [] = [x]"
| "insert_sorted cmp x (y # ys) =
     (if cmp x y \<le> 0 then x # y # ys else y # insert_sorted cmp x ys)"

definition array_sort :: "('a \<Rightarrow> 'a \<Rightarrow> int) \<Rightarrow> 'a list \<Rightarrow> 'a list" where
  "array_sort cmp xs = foldr (insert_sorted cmp) xs []"

text \<open>The comparator \<^verbatim>\<open>(a, b) => b.created_at - a.created_at\<close> used throughout.\<close>

definition newest_first :: "'a event_scheme \<Rightarrow> 'a event_scheme \<Rightarrow> int" where
  "newest_first a b = created_at b - created_at a"

text \<open>A list is in descending order of \<^verbatim>\<open>created_at\<close>.\<close>

definition descending :: "'a event_scheme list \<Rightarrow> bool" where
  "descending xs = sorted_wrt (\<lambda>a b. created_at b \<le> created_at a) xs"

subsection \<open>Creating events\<close>

text \<open>
  \<^verbatim>\<open>hexToBytes\<close> and \<^verbatim>\<open>finalizeEvent\<close> are package calls that throw on a key they
  reject; both are parameters. \<^verbatim>\<open>Date.now()\<close> is the parameter \<open>now\<close>, in
  milliseconds. \<^verbatim>\<open>!privateKeyHex\<close> holds for \<^verbatim>\<open>null\<close> and for the empty string.
\<close>

definition sign_template ::
  "(string \<Rightarrow> 'b list call) \<Rightarrow> (event_template \<Rightarrow> 'b list \<Rightarrow> event call) \<Rightarrow> string
     \<Rightarrow> event_template \<Rightarrow> event call"
where
  "sign_template hexToBytes' finalizeEvent privateKeyHex eventTemplate =
     (case hexToBytes' privateKeyHex of
        Throws \<Rightarrow> Throws
      | Returns privateKeyBytes \<Rightarrow> finalizeEvent eventTemplate privateKeyBytes)"

definition createNoteEvent ::
  "(string \<Rightarrow> 'b list call) \<Rightarrow> (event_template \<Rightarrow> 'b list \<Rightarrow> event call) \<Rightarrow> int
     \<Rightarrow> 'a browser_scheme \<Rightarrow> string \<Rightarrow> string list list \<Rightarrow> error + event option"
where
  "createNoteEvent hexToBytes' finalizeEvent now s content_arg tags_arg =
     (case getPrivateKey s of
        None \<Rightarrow> Inl NoPrivateKeyAvailable
      | Some privateKeyHex \<Rightarrow>
          if privateKeyHex = [] then Inl NoPrivateKeyAvailable
          else
            (case sign_template hexToBytes' finalizeEvent privateKeyHex
                    \<lparr>kind = TEXT_NOTE_KIND, created_at = now div 1000,
                     tags = tags_arg, content = content_arg\<rparr> of
               Throws \<Rightarrow> Inr None
             | Returns signedEvent \<Rightarrow> Inr (Some signedEvent)))"

definition createReactionEvent ::
  "(string \<Rightarrow> 'b list call) \<Rightarrow> (event_template \<Rightarrow> 'b list \<Rightarrow> event call) \<Rightarrow> int
     \<Rightarrow> 'a browser_scheme \<Rightarrow> string \<Rightarrow> string \<Rightarrow> string \<Rightarrow> error + event option"
where
  "createReactionEvent hexToBytes' finalizeEvent now s eventId pubkey_arg content_arg =
     (case getPrivateKey s of
        None \<Rightarrow> Inl NoPrivateKeyAvailable
      | Some privateKeyHex \<Rightarrow>
          if privateKeyHex = [] then Inl NoPrivateKeyAvailable
          else
            (case sign_template hexToBytes' finalizeEvent privateKeyHex
                    \<lparr>kind = REACTION_KIND, created_at = now div 1000,
                     tags = [[''e'', eventId], [''p'', pubkey_arg]], content = content_arg\<rparr> of
               Throws \<Rightarrow> Inr None
             | Returns signedEvent \<Rightarrow> Inr (Some signedEvent)))"

subsection \<open>Publishing\<close>

text \<open>
  \<^verbatim>\<open>pool.publish(relayUrls, event)\<close> returns one promise per URL, or throws.
  \<^verbatim>\<open>Promise.allSettled\<close> yields each promise's outcome in the order of the array; a relay
  that does not acknowledge in time makes the package reject its promise. The result
  object starts with \<^verbatim>\<open>false\<close> under every URL and gets \<^verbatim>\<open>true\<close> under
  \<^verbatim>\<open>relayUrls[index]\<close> for every fulfilled promise; an index past the end of \<^verbatim>\<open>relayUrls\<close>
  reads \<^verbatim>\<open>undefined\<close>, which as a property key is the string \<^verbatim>\<open>undefined\<close>.
\<close>

definition relayUrl_at :: "string list \<Rightarrow> nat \<Rightarrow> string" where
  "relayUrl_at relayUrls index =
     (if index < length relayUrls then relayUrls ! index else ''undefined'')"

definition init_results :: "string list \<Rightarrow> (string \<rightharpoonup> bool)" where
  "init_results relayUrls = foldl (\<lambda>results relayUrl. results(relayUrl \<mapsto> False)) Map.empty relayUrls"

definition update_results ::
  "string list \<Rightarrow> (string \<rightharpoonup> bool) \<Rightarrow> ('v promise_result \<times> nat) list \<Rightarrow> (string \<rightharpoonup> bool)"
where
  "update_results relayUrls results settledResults =
     foldl (\<lambda>results (result, index).
              if is_fulfilled result then results(relayUrl_at relayUrls index \<mapsto> True)
              else results)
       results settledResults"

definition publishEvent ::
  "(string list \<Rightarrow> 'e \<Rightarrow> 'v promise_result list call) \<Rightarrow> 'e \<Rightarrow> string list
     \<Rightarrow> error + (string \<rightharpoonup> bool)"
where
  "publishEvent publish ev relayUrls =
     (case publish relayUrls ev of
        Throws \<Rightarrow> Inl FailedToPublishEvent
      | Returns publishPromises \<Rightarrow>
          Inr (update_results relayUrls (init_results relayUrls)
                 (zip publishPromises [0 ..< length publishPromises])))"

definition updateUserMetadata ::
  "(string \<Rightarrow> 'b list call) \<Rightarrow> (event_template \<Rightarrow> 'b list \<Rightarrow> event call)
     \<Rightarrow> (string list \<Rightarrow> event \<Rightarrow> 'v promise_result list call) \<Rightarrow> ('m \<Rightarrow> string) \<Rightarrow> int
     \<Rightarrow> 'a browser_scheme \<Rightarrow> 'm \<Rightarrow> string list \<Rightarrow> error + event option"
where
  "updateUserMetadata hexToBytes' finalizeEvent publish stringify now s metadata relayUrls =
     (case getPrivateKey s of
        None \<Rightarrow> Inl NoPrivateKeyAvailable
      | Some privateKeyHex \<Rightarrow>
          if privateKeyHex = [] then Inl NoPrivateKeyAvailable
          else
            (case sign_template hexToBytes' finalizeEvent privateKeyHex
                    \<lparr>kind = METADATA_KIND, created_at = now div 1000,
                     tags = [], content = stringify metadata\<rparr> of
               Throws \<Rightarrow> Inr None
             | Returns signedEvent \<Rightarrow>
                 (case publishEvent publish signedEvent relayUrls of
                    Inl e \<Rightarrow> Inr None
                  | Inr acks \<Rightarrow> Inr (Some signedEvent))))"

subsection \<open>Querying\<close>

text \<open>
  \<^verbatim>\<open>pool.querySync(relayUrls, filter, {maxWait})\<close> is awaited inside \<^verbatim>\<open>try\<close>: a throw and a
  rejected promise both end in the \<^verbatim>\<open>catch\<close>, which returns the empty array. Three pools
  serve as concrete inputs: one whose query is fulfilled with a given list, one whose
  query is rejected, one whose call throws.
\<close>

definition querySync_returning ::
  "event list \<Rightarrow> string list \<Rightarrow> filter_q \<Rightarrow> int \<Rightarrow> event list promise_result call"
where
  "querySync_returning evs relayUrls f maxWait = Returns (Fulfilled evs)"

definition querySync_rejecting ::
  "string list \<Rightarrow> filter_q \<Rightarrow> int \<Rightarrow> event list promise_result call"
where
  "querySync_rejecting relayUrls f maxWait = Returns Rejected"

definition querySync_throwing ::
  "string list \<Rightarrow> filter_q \<Rightarrow> int \<Rightarrow> event list promise_result call"
where
  "querySync_throwing relayUrls f maxWait = Throws"

definition fetchEvents ::
  "(string list \<Rightarrow> filter_q \<Rightarrow> int \<Rightarrow> event list promise_result call) \<Rightarrow> filter_q
     \<Rightarrow> string list \<Rightarrow> int \<Rightarrow> event list"
where
  "fetchEvents querySync f relayUrls timeout =
     (case querySync relayUrls f timeout of
        Returns (Fulfilled evs) \<Rightarrow> evs
      | Returns Rejected \<Rightarrow> []
      | Throws \<Rightarrow> [])"

definition metadata_filter :: "string \<Rightarrow> filter_q" where
  "metadata_filter pubkey_arg =
     \<lparr>ids = None, authors = Some [pubkey_arg], kinds = Some [METADATA_KIND],
      since = None, until = None, limit = Some 1\<rparr>"

definition fetchUserMetadata ::
  "(string list \<Rightarrow> filter_q \<Rightarrow> int \<Rightarrow> event list promise_result call) \<Rightarrow> string
     \<Rightarrow> string list \<Rightarrow> event option"
where
  "fetchUserMetadata querySync pubkey_arg relayUrls =
     (let f = metadata_filter pubkey_arg;
          evs = fetchEvents querySync f relayUrls 3000;
          sorted_evs = array_sort newest_first evs
      in case sorted_evs of [] \<Rightarrow> None | e # rest \<Rightarrow> Some e)"

subsection \<open>Subscribing\<close>

text \<open>
  Modelled from the spec: \<^verbatim>\<open>pool.subscribeMany\<close> of the nostr-tools package, which
  \<^verbatim>\<open>subscribeToEvents\<close> calls and which is not among the sources. The spec (4.4,
  subscribe) gives it a deduplication cache keyed by \<open>id\<close>, kept for as long as the
  subscription lives: an event coming in from one of the listed relays reaches the
  \<^verbatim>\<open>onevent\<close> handler unless its \<open>id\<close> is in the cache already, and closing the
  subscription stops delivery. The subscription's input is the sequence of what happens
  to it: an event coming in from a relay, or a call of \<^verbatim>\<open>close\<close>.
\<close>

datatype sub_input = Incoming string event | CloseCalled

record sub_state =
  known_ids :: "string list"
  closed :: bool

definition subscribeMany_step ::
  "string list \<Rightarrow> sub_state \<Rightarrow> sub_input \<Rightarrow> event option \<times> sub_state"
where
  "subscribeMany_step relayUrls st i =
     (case i of
        CloseCalled \<Rightarrow> (None, st\<lparr>closed := True\<rparr>)
      | Incoming relay ev \<Rightarrow>
          if closed st \<or> relay \<notin> set relayUrls \<or> id_e ev \<in> set (known_ids st) then (None, st)
          else (Some ev, st\<lparr>known_ids := id_e ev # known_ids st\<rparr>))"

fun subscribeMany_run :: "string list \<Rightarrow> sub_state \<Rightarrow> sub_input list \<Rightarrow> event list" where
  "subscribeMany_run relayUrls st [] = []"
| "subscribeMany_run relayUrls st (i # inputs) =
     (case subscribeMany_step relayUrls st i of
        (None, st') \<Rightarrow> subscribeMany_run relayUrls st' inputs
      | (Some ev, st') \<Rightarrow> ev # subscribeMany_run relayUrls st' inputs)"

definition subscribeMany :: "string list \<Rightarrow> sub_input list \<Rightarrow> event list" where
  "subscribeMany relayUrls inputs =
     subscribeMany_run relayUrls \<lparr>known_ids = [], closed = False\<rparr> inputs"

text \<open>
  \<^verbatim>\<open>subscribeToEvents\<close> passes an \<^verbatim>\<open>onevent\<close> handler that calls \<^verbatim>\<open>onEvent\<close> with the event
  and the constant relay name; the function it returns calls \<^verbatim>\<open>subscription.close()\<close>.
  The value of the model is the list of the calls of \<^verbatim>\<open>onEvent\<close>, in order.
\<close>

definition subscribeToEvents ::
  "(string list \<Rightarrow> sub_input list \<Rightarrow> event list) \<Rightarrow> string list \<Rightarrow> sub_input list
     \<Rightarrow> (event \<times> string) list"
where
  "subscribeToEvents pool_subscribeMany relayUrls inputs =
     map (\<lambda>ev. (ev, ''unknown-relay'')) (pool_subscribeMany relayUrls inputs)"

section \<open>The event list of the hook useNostrEvents\<close>

record hook_state =
  events :: "event list"
  pendingEvents :: "event list"
  hasNewEvents :: bool
  isLoading :: bool

text \<open>\<^verbatim>\<open>xs.findIndex(p)\<close>: the index of the first element satisfying \<open>p\<close>, or \<open>-1\<close>.\<close>

fun findIndex :: "('a \<Rightarrow> bool) \<Rightarrow> 'a list \<Rightarrow> int" where
  "findIndex p [] = -1"
| "findIndex p (x # xs) =
     (if p x then 0 else (let i = findIndex p xs in if i = -1 then -1 else i + 1))"

text \<open>\<^verbatim>\<open>xs.filter((x, index, self) => p(x, index, self))\<close>.\<close>

definition filter_indexed :: "('a \<Rightarrow> nat \<Rightarrow> 'a list \<Rightarrow> bool) \<Rightarrow> 'a list \<Rightarrow> 'a list" where
  "filter_indexed p xs = map snd (filter (\<lambda>(index, x). p x index xs) (List.enumerate 0 xs))"

text \<open>The duplicate filter of \<^verbatim>\<open>applyPendingEvents\<close>, for any key \<open>f\<close> in place of \<open>id\<close>.\<close>

definition first_seen :: "('a \<Rightarrow> 'b) \<Rightarrow> 'a list \<Rightarrow> 'a list" where
  "first_seen f xs =
     filter_indexed (\<lambda>ev index self. int index = findIndex (\<lambda>e. f e = f ev) self) xs"

definition merge_events :: "event list \<Rightarrow> event list \<Rightarrow> event list" where
  "merge_events prev pending =
     (let allEvents = prev @ pending;
          uniqueEvents =
            filter_indexed
              (\<lambda>ev index self. int index = findIndex (\<lambda>e. id_e e = id_e ev) self) allEvents
      in array_sort newest_first uniqueEvents)"

definition applyPendingEvents :: "hook_state \<Rightarrow> hook_state" where
  "applyPendingEvents h =
     (if length (pendingEvents h) > 0 then
        h\<lparr>events := merge_events (events h) (pendingEvents h),
          pendingEvents := [], hasNewEvents := False\<rparr>
      else h)"

definition fetchEventsData ::
  "bool \<Rightarrow> (string list \<Rightarrow> filter_q \<Rightarrow> int \<Rightarrow> event list promise_result call) \<Rightarrow> filter_q
     \<Rightarrow> string list \<Rightarrow> hook_state \<Rightarrow> hook_state"
where
  "fetchEventsData enabled querySync f relayUrls h =
     (if \<not> enabled then h
      else
        (let fetchedEvents = fetchEvents querySync f relayUrls 3000
         in h\<lparr>events := array_sort newest_first fetchedEvents,
              pendingEvents := [], hasNewEvents := False, isLoading := False\<rparr>))"

section \<open>Display encodings of keys (keys.ts)\<close>

unbundle bit_operations_syntax

subsection \<open>Hexadecimal strings and bytes\<close>

text \<open>
  Modelled from the spec: \<^verbatim>\<open>hexToBytes\<close> and \<^verbatim>\<open>bytesToHex\<close> of the package
  @noble/hashes, which keys.ts imports and which are not among the sources. The spec
  (3, Event) has keys hex-encoded at a fixed width. Reading accepts the digits
  \<^verbatim>\<open>0-9\<close>, \<^verbatim>\<open>a-f\<close> and \<^verbatim>\<open>A-F\<close>, two per byte, and throws on an odd length or on any
  other character; writing gives two lower-case digits per byte. A byte is a natural
  number below 256.
\<close>

definition asciiToBase16 :: "char \<Rightarrow> nat option" where
  "asciiToBase16 c =
     (let n = (of_char c :: nat) in
      if 48 \<le> n \<and> n \<le> 57 then Some (n - 48)
      else if 65 \<le> n \<and> n \<le> 70 then Some (n - 55)
      else if 97 \<le> n \<and> n \<le> 102 then Some (n - 87)
      else None)"

fun hexToBytes :: "string \<Rightarrow> nat list call" where
  "hexToBytes [] = Returns []"
| "hexToBytes [c] = Throws"
| "hexToBytes (c1 # c2 # cs) =
     (case (asciiToBase16 c1, asciiToBase16 c2) of
        (Some n1, Some n2) \<Rightarrow>
          (case hexToBytes cs of Throws \<Rightarrow> Throws | Returns bs \<Rightarrow> Returns ((n1 * 16 + n2) # bs))
      | _ \<Rightarrow> Throws)"

definition hexes :: "nat \<Rightarrow> string" where
  "hexes b = [''0123456789abcdef'' ! (b div 16), ''0123456789abcdef'' ! (b mod 16)]"

definition bytesToHex :: "nat list \<Rightarrow> string" where
  "bytesToHex bytes = concat (map hexes bytes)"

subsection \<open>Regrouping bytes into five-bit words\<close>

text \<open>
  Modelled from the spec: \<^verbatim>\<open>bech32.toWords\<close> and \<^verbatim>\<open>bech32.fromWords\<close> of the package
  @scure/base, on which \<^verbatim>\<open>nip19\<close> rests and which is not among the sources. The bits of
  the bytes, most significant first, are cut into groups of five and the last group is
  filled with zeros; the way back cuts the bits of the words into groups of eight and
  throws when five or more bits are left over or a bit left over is set.
\<close>

fun to_bits :: "nat \<Rightarrow> nat \<Rightarrow> bool list" where
  "to_bits 0 n = []"
| "to_bits (Suc w) n = odd (n div 2 ^ w) # to_bits w n"

definition from_bits :: "bool list \<Rightarrow> nat" where
  "from_bits bs = foldl (\<lambda>a b. 2 * a + (if b then 1 else 0)) 0 bs"

function groups :: "nat \<Rightarrow> 'a list \<Rightarrow> 'a list list" where
  "groups n xs = (if n = 0 \<or> xs = [] then [] else take n xs # groups n (drop n xs))"
  by pat_completeness auto
termination
  by (relation "measure (\<lambda>(n, xs). length xs)") auto

declare groups.simps [simp del]

definition toWords :: "nat list \<Rightarrow> nat list call" where
  "toWords bytes =
     (if \<exists>b\<in>set bytes. b \<ge> 256 then Throws
      else
        (let bits = concat (map (to_bits 8) bytes);
             padding = replicate ((5 - length bits mod 5) mod 5) False
         in Returns (map from_bits (groups 5 (bits @ padding)))))"

definition fromWords :: "nat list \<Rightarrow> nat list call" where
  "fromWords ws =
     (if \<exists>w\<in>set ws. w \<ge> 32 then Throws
      else
        (let bits = concat (map (to_bits 5) ws);
             n = length bits div 8;
             rest = drop (8 * n) bits
         in if length rest \<ge> 5 then Throws
            else if True \<in> set rest then Throws
            else Returns (map from_bits (groups 8 (take (8 * n) bits)))))"

subsection \<open>Letters, checksum and the encoded string\<close>

text \<open>
  Modelled from the spec: \<^verbatim>\<open>bech32.encode\<close> and \<^verbatim>\<open>bech32.decode\<close> of @scure/base. The
  spec (4.1) gives the display form a prefix, a length and a checksum, and has decoding
  fail when one of them is wrong. The string is the lower-case prefix, the separator
  \<^verbatim>\<open>1\<close>, one letter of a 32-letter alphabet per word, and six letters of checksum over
  the prefix and the words. Decoding checks the length and the case, splits at the last
  \<^verbatim>\<open>1\<close>, reads the letters, computes the checksum of the prefix and the words again
  and compares it with the last six letters.
\<close>

definition BECH_ALPHABET :: string where
  "BECH_ALPHABET = ''qpzry9x8gf2tvdw0s3jn54khce6mua7l''"

definition alphabet_encode :: "nat list \<Rightarrow> string call" where
  "alphabet_encode ws =
     (if \<exists>w\<in>set ws. w \<ge> 32 then Throws else Returns (map (\<lambda>w. BECH_ALPHABET ! w) ws))"

fun indexOf :: "'a \<Rightarrow> 'a list \<Rightarrow> nat option" where
  "indexOf c [] = None"
| "indexOf c (x # xs) =
     (if x = c then Some 0 else (case indexOf c xs of None \<Rightarrow> None | Some i \<Rightarrow> Some (Suc i)))"

fun alphabet_decode :: "string \<Rightarrow> nat list call" where
  "alphabet_decode [] = Returns []"
| "alphabet_decode (c # cs) =
     (case indexOf c BECH_ALPHABET of
        None \<Rightarrow> Throws
      | Some w \<Rightarrow> (case alphabet_decode cs of Throws \<Rightarrow> Throws | Returns ws \<Rightarrow> Returns (w # ws)))"

definition POLYMOD_GENERATORS :: "nat list" where
  "POLYMOD_GENERATORS = [0x3b6a57b2, 0x26508e6d, 0x1ea119fa, 0x3d4233dd, 0x2a1462b3]"

definition bech32Polymod :: "nat \<Rightarrow> nat" where
  "bech32Polymod pre =
     (let b = pre div 2 ^ 25;
          chk = (pre mod 2 ^ 25) * 32
      in foldl (\<lambda>chk i. if odd (b div 2 ^ i) then chk XOR (POLYMOD_GENERATORS ! i) else chk)
           chk [0 ..< 5])"

definition bechChecksum :: "string \<Rightarrow> nat list \<Rightarrow> string call" where
  "bechChecksum prefix ws =
     (if \<exists>c\<in>set prefix. (of_char c :: nat) < 33 \<or> (of_char c :: nat) > 126 then Throws
      else
        (let chk1 = foldl (\<lambda>chk c. bech32Polymod chk XOR (of_char c div 32)) 1 prefix;
             chk2 = bech32Polymod chk1;
             chk3 = foldl (\<lambda>chk c. bech32Polymod chk XOR (of_char c mod 32)) chk2 prefix;
             chk4 = foldl (\<lambda>chk v. bech32Polymod chk XOR v) chk3 ws;
             chk5 = foldl (\<lambda>chk i. bech32Polymod chk) chk4 [0 ..< 6 :: nat];
             chk6 = (chk5 XOR 1) mod 2 ^ 30
         in Returns (map (\<lambda>i. BECH_ALPHABET ! ((chk6 div 2 ^ (5 * (5 - i))) mod 32)) [0 ..< 6])))"

definition toLowerCase :: "string \<Rightarrow> string" where
  "toLowerCase s =
     map (\<lambda>c. if 65 \<le> (of_char c :: nat) \<and> (of_char c :: nat) \<le> 90
               then char_of ((of_char c :: nat) + 32) else c) s"

definition toUpperCase :: "string \<Rightarrow> string" where
  "toUpperCase s =
     map (\<lambda>c. if 97 \<le> (of_char c :: nat) \<and> (of_char c :: nat) \<le> 122
               then char_of ((of_char c :: nat) - 32) else c) s"

fun lastIndexOf :: "'a \<Rightarrow> 'a list \<Rightarrow> nat option" where
  "lastIndexOf c [] = None"
| "lastIndexOf c (x # xs) =
     (case lastIndexOf c xs of
        Some i \<Rightarrow> Some (Suc i)
      | None \<Rightarrow> if x = c then Some 0 else None)"

definition bech32_encode :: "string \<Rightarrow> nat list \<Rightarrow> nat \<Rightarrow> string call" where
  "bech32_encode prefix ws size_limit =
     (if length prefix = 0 then Throws
      else if length prefix + 7 + length ws > size_limit then Throws
      else
        (let lowered = toLowerCase prefix
         in case bechChecksum lowered ws of
              Throws \<Rightarrow> Throws
            | Returns checksum \<Rightarrow>
                (case alphabet_encode ws of
                   Throws \<Rightarrow> Throws
                 | Returns letters \<Rightarrow> Returns (lowered @ ''1'' @ letters @ checksum))))"

definition bech32_decode :: "string \<Rightarrow> nat \<Rightarrow> (string \<times> nat list) call" where
  "bech32_decode str size_limit =
     (if length str < 8 \<or> length str > size_limit then Throws
      else
        (let lowered = toLowerCase str
         in if str \<noteq> lowered \<and> str \<noteq> toUpperCase str then Throws
            else
              (case lastIndexOf CHR ''1'' lowered of
                 None \<Rightarrow> Throws
               | Some sepIndex \<Rightarrow>
                   if sepIndex = 0 then Throws
                   else
                     (let prefix = take sepIndex lowered;
                          letters = drop (sepIndex + 1) lowered
                      in if length letters < 6 then Throws
                         else
                           (case alphabet_decode letters of
                              Throws \<Rightarrow> Throws
                            | Returns all_words \<Rightarrow>
                                (let ws = take (length all_words - 6) all_words
                                 in case bechChecksum prefix ws of
                                      Throws \<Rightarrow> Throws
                                    | Returns checksum \<Rightarrow>
                                        if drop (length letters - length checksum) letters \<noteq> checksum
                                        then Throws
                                        else Returns (prefix, ws)))))))"

subsection \<open>The key encodings of nip19\<close>

text \<open>
  Modelled from the spec: \<^verbatim>\<open>npubEncode\<close>, \<^verbatim>\<open>nsecEncode\<close> and \<^verbatim>\<open>decode\<close> of
  \<^verbatim>\<open>nostr-tools/nip19\<close>, which keys.ts calls and which is not among the sources; the
  spec (4.1) names them \<open>encode\<close> and \<open>decode\<close> of the public and the private display
  form. \<^verbatim>\<open>npubEncode\<close> takes the key as a hex string, \<^verbatim>\<open>nsecEncode\<close> as bytes;
  \<^verbatim>\<open>decode\<close> gives a hex string for the prefixes \<^verbatim>\<open>npub\<close> and \<^verbatim>\<open>note\<close>, bytes for
  \<^verbatim>\<open>nsec\<close>, and a structured value, not detailed here, for the prefixes that carry
  more than a key.
\<close>

definition Bech32MaxSize :: nat where "Bech32MaxSize = 5000"

definition encodeBytes :: "string \<Rightarrow> nat list \<Rightarrow> string call" where
  "encodeBytes prefix bytes =
     (case toWords bytes of
        Throws \<Rightarrow> Throws
      | Returns ws \<Rightarrow> bech32_encode prefix ws Bech32MaxSize)"

definition npubEncode :: "string \<Rightarrow> string call" where
  "npubEncode hex =
     (case hexToBytes hex of Throws \<Rightarrow> Throws | Returns bytes \<Rightarrow> encodeBytes ''npub'' bytes)"

definition nsecEncode :: "nat list \<Rightarrow> string call" where
  "nsecEncode key = encodeBytes ''nsec'' key"

datatype nip19_data = HexData string | BytesData "nat list" | PointerData

definition nip19_decode :: "string \<Rightarrow> (string \<times> nip19_data) call" where
  "nip19_decode nip19 =
     (case bech32_decode nip19 Bech32MaxSize of
        Throws \<Rightarrow> Throws
      | Returns (prefix, ws) \<Rightarrow>
          (case fromWords ws of
             Throws \<Rightarrow> Throws
           | Returns data \<Rightarrow>
               if prefix = ''nprofile'' \<or> prefix = ''nevent'' \<or> prefix = ''naddr''
               then Returns (prefix, PointerData)
               else if prefix = ''nsec'' then Returns (prefix, BytesData data)
               else if prefix = ''npub'' \<or> prefix = ''note''
               then Returns (prefix, HexData (bytesToHex data))
               else Throws))"

subsection \<open>The four conversions of keys.ts\<close>

text \<open>
  \<^verbatim>\<open>hexToNpub\<close> and \<^verbatim>\<open>hexToNsec\<close> have no \<^verbatim>\<open>try\<close>: what the package throws, they throw.
  \<^verbatim>\<open>npubToHex\<close> returns the decoded \<^verbatim>\<open>data\<close> as it is, whatever the prefix was;
  \<^verbatim>\<open>nsecToHex\<close> passes it to \<^verbatim>\<open>bytesToHex\<close>, which throws on anything but bytes. Both
  turn every throw into their own error.
\<close>

definition hexToNpub :: "string \<Rightarrow> string call" where
  "hexToNpub publicKey = npubEncode publicKey"

definition hexToNsec :: "string \<Rightarrow> string call" where
  "hexToNsec privateKeyHex =
     (case hexToBytes privateKeyHex of
        Throws \<Rightarrow> Throws
      | Returns privateKeyBytes \<Rightarrow> nsecEncode privateKeyBytes)"

definition npubToHex :: "string \<Rightarrow> error + nip19_data" where
  "npubToHex npub =
     (case nip19_decode npub of
        Throws \<Rightarrow> Inl InvalidNpubFormat
      | Returns (prefix, data) \<Rightarrow> Inr data)"

definition nsecToHex :: "string \<Rightarrow> error + string" where
  "nsecToHex nsec =
     (case nip19_decode nsec of
        Throws \<Rightarrow> Inl InvalidNsecFormat
      | Returns (prefix, data) \<Rightarrow>
          (case data of
             BytesData bytes \<Rightarrow> Inr (bytesToHex bytes)
           | _ \<Rightarrow> Inl InvalidNsecFormat))"

text \<open>A key as the protocol writes it: 32 bytes as 64 lower-case hex digits.\<close>

definition valid_key :: "string \<Rightarrow> bool" where
  "valid_key k = (length k = 64 \<and> (\<forall>c\<in>set k. c \<in> set ''0123456789abcdef''))"

section \<open>Concrete inputs\<close>

text \<open>Two metadata events of one author, an older and a newer one.\<close>

definition ev_old :: event where
  "ev_old = \<lparr>kind = 0, created_at = 100, tags = [], content = ''{}'',
             id_e = ''0a'', pubkey = ''ab'', sig = ''01''\<rparr>"

definition ev_new :: event where
  "ev_new = \<lparr>kind = 0, created_at = 200, tags = [], content = ''{}'',
             id_e = ''0b'', pubkey = ''ab'', sig = ''02''\<rparr>"

text \<open>Two distinct metadata events of one author with the same timestamp.\<close>

definition ev_tie_a :: event where
  "ev_tie_a = \<lparr>kind = 0, created_at = 100, tags = [], content = ''{}'',
               id_e = ''a'', pubkey = ''ab'', sig = ''03''\<rparr>"

definition ev_tie_b :: event where
  "ev_tie_b = \<lparr>kind = 0, created_at = 100, tags = [], content = ''{}'',
               id_e = ''b'', pubkey = ''ab'', sig = ''04''\<rparr>"

text \<open>A browser with working storage in which nothing has been stored or connected.\<close>

definition fresh_state :: "string relays_state" where
  "fresh_state =
     \<lparr>has_window = True, setItem_throws = False, nostr_relays = NoItem,
      nostr_private_key = None, pool = None, activeRelays = Map.empty\<rparr>"

text \<open>The same browser holding a private key.\<close>

definition keyed_state :: "string relays_state" where
  "keyed_state = fresh_state\<lparr>nostr_private_key := Some ''zz''\<rparr>"

text \<open>A \<^verbatim>\<open>hexToBytes\<close> that throws on every key, and a signer that throws on every key.\<close>

definition hexToBytes_rejecting :: "string \<Rightarrow> nat list call" where
  "hexToBytes_rejecting hex = Throws"

definition hexToBytes_accepting :: "string \<Rightarrow> nat list call" where
  "hexToBytes_accepting hex = Returns (map of_char hex)"

definition finalizeEvent_rejecting :: "event_template \<Rightarrow> nat list \<Rightarrow> event call" where
  "finalizeEvent_rejecting eventTemplate privateKeyBytes = Throws"

text \<open>A pool in which the relay \<^verbatim>\<open>wss://nos.lol\<close> cannot be reached and the others can.\<close>

definition ensureRelay_one_down :: "string \<Rightarrow> string promise_result call" where
  "ensureRelay_one_down url =
     (if url = ''wss://nos.lol'' then Returns Rejected else Returns (Fulfilled url))"

definition publish_one_down :: "string list \<Rightarrow> event \<Rightarrow> string promise_result list call" where
  "publish_one_down relayUrls ev =
     Returns (map (\<lambda>url. if url = ''wss://nos.lol'' then Rejected else Fulfilled ''ok'') relayUrls)"

section \<open>Relay list: adding and removing\<close>

lemma saveRelays_keeps:
  "pool (saveRelays rs s) = pool s" "activeRelays (saveRelays rs s) = activeRelays s"
  by (simp_all add: saveRelays_def)

lemma addRelay_keeps:
  "pool (addRelay url s) = pool s" "activeRelays (addRelay url s) = activeRelays s"
  by (simp_all add: addRelay_def saveRelays_keeps Let_def)

lemma addRelay_env:
  "has_window (addRelay url s) = has_window s"
  "setItem_throws (addRelay url s) = setItem_throws s"
  by (simp_all add: addRelay_def Let_def saveRelays_def)

lemma pool_inv_disconnect: "pool_inv s \<Longrightarrow> pool_inv (disconnectFromRelay url s)"
  by (auto simp: pool_inv_def disconnectFromRelay_def split: option.splits)

lemma pool_inv_connectToRelay:
  "pool_inv s \<Longrightarrow> pool_inv (snd (connectToRelay ensureRelay url s))"
  by (auto simp: pool_inv_def connectToRelay_def getPool_def Let_def
           split: option.splits call.splits promise_result.splits prod.splits)

lemma pool_connectToRelays: "pool (snd (connectToRelays ensureRelay urls s)) \<noteq> None"
  by (auto simp: connectToRelays_def Let_def split: prod.splits)

lemma reachable_pool_inv: "reachable s \<Longrightarrow> pool_inv s"
proof (induction rule: reachable.induct)
  case (start s)
  then show ?case by (simp add: pool_inv_def)
next
  case (after_closePool s)
  then show ?case by (auto simp: pool_inv_def closePool_def split: option.splits)
next
  case (after_connectToRelay s ensureRelay url)
  then show ?case by (simp add: pool_inv_connectToRelay)
next
  case (after_connectToRelays s ensureRelay urls)
  show ?case using pool_connectToRelays [of ensureRelay urls s] by (auto simp: pool_inv_def)
next
  case (after_disconnectFromRelay s url)
  then show ?case by (simp add: pool_inv_disconnect)
next
  case (after_saveRelays s relays)
  then show ?case by (simp add: pool_inv_def saveRelays_keeps)
next
  case (after_addRelay s url)
  then show ?case by (simp add: pool_inv_def addRelay_keeps)
next
  case (after_removeRelay s url)
  then have "pool_inv (saveRelays (filter (\<lambda>relay. relay \<noteq> url) (getSavedRelays s)) s)"
    by (simp add: pool_inv_def saveRelays_keeps)
  then show ?case unfolding removeRelay_def Let_def by (rule pool_inv_disconnect)
qed

lemma getSavedRelays_saveRelays:
  "has_window s \<Longrightarrow> \<not> setItem_throws s \<Longrightarrow> getSavedRelays (saveRelays rs s) = rs"
  by (simp add: getSavedRelays_def saveRelays_def)

lemma getSavedRelays_disconnect: "getSavedRelays (disconnectFromRelay url s) = getSavedRelays s"
  by (auto simp: getSavedRelays_def disconnectFromRelay_def split: option.splits)

lemma disconnect_inactive: "pool_inv s \<Longrightarrow> \<not> isRelayActive (disconnectFromRelay url s) url"
  by (auto simp: pool_inv_def isRelayActive_def disconnectFromRelay_def split: option.splits)

lemma removeRelay_saved:
  "has_window s \<Longrightarrow> \<not> setItem_throws s \<Longrightarrow>
   getSavedRelays (removeRelay url s) = filter (\<lambda>relay. relay \<noteq> url) (getSavedRelays s)"
  by (simp add: removeRelay_def Let_def getSavedRelays_disconnect getSavedRelays_saveRelays)

lemma removeRelay_inactive: "pool_inv s \<Longrightarrow> \<not> isRelayActive (removeRelay url s) url"
  unfolding removeRelay_def Let_def
  by (rule disconnect_inactive) (simp add: pool_inv_def saveRelays_keeps)

lemma removeRelay_closes:
  "isRelayActive s url \<Longrightarrow> pool s = Some p \<Longrightarrow>
   pool (removeRelay url s) = Some (p @ [Close [url]])"
  by (auto simp: removeRelay_def Let_def disconnectFromRelay_def isRelayActive_def
        saveRelays_keeps split: option.splits)

lemma addRelay_saved:
  "has_window s \<Longrightarrow> \<not> setItem_throws s \<Longrightarrow> url \<notin> set (getSavedRelays s) \<Longrightarrow>
   getSavedRelays (addRelay url s) = getSavedRelays s @ [url]"
  by (simp add: addRelay_def Let_def getSavedRelays_saveRelays)

text \<open>
  Claim C9. In a browser whose storage works, and in any state the module can reach: a
  URL that is not in the saved list is in it after \<^verbatim>\<open>addRelay\<close>, at the end of the list;
  after \<^verbatim>\<open>removeRelay\<close> it is not in the saved list any more and the relay is not
  active; and if the relay was active, the pool has been told to close it.
\<close>

theorem addRelay_then_removeRelay:
  assumes "reachable s" and "has_window s" and "\<not> setItem_throws s"
    and "url \<notin> set (getSavedRelays s)"
  shows "url \<in> set (getSavedRelays (addRelay url s)) \<and>
         url \<notin> set (getSavedRelays (removeRelay url (addRelay url s))) \<and>
         \<not> isRelayActive (removeRelay url (addRelay url s)) url \<and>
         (isRelayActive (addRelay url s) url \<longrightarrow>
            (\<exists>p. pool (addRelay url s) = Some p \<and>
                 pool (removeRelay url (addRelay url s)) = Some (p @ [Close [url]])))"
proof -
  let ?t = "addRelay url s"
  have rt: "reachable ?t" using assms(1) by (rule after_addRelay)
  have inv: "pool_inv ?t" using rt by (rule reachable_pool_inv)
  have env: "has_window ?t" "\<not> setItem_throws ?t"
    using assms(2,3) by (simp_all add: addRelay_env)
  have 1: "url \<in> set (getSavedRelays ?t)" using assms(2-4) by (simp add: addRelay_saved)
  have 2: "url \<notin> set (getSavedRelays (removeRelay url ?t))"
    using env by (simp add: removeRelay_saved)
  have 3: "\<not> isRelayActive (removeRelay url ?t) url" using inv by (rule removeRelay_inactive)
  have 4: "isRelayActive ?t url \<longrightarrow>
            (\<exists>p. pool ?t = Some p \<and> pool (removeRelay url ?t) = Some (p @ [Close [url]]))"
  proof
    assume act: "isRelayActive ?t url"
    then have "pool ?t \<noteq> None" using inv by (auto simp: pool_inv_def isRelayActive_def)
    then obtain p where "pool ?t = Some p" by blast
    then show "\<exists>p. pool ?t = Some p \<and> pool (removeRelay url ?t) = Some (p @ [Close [url]])"
      using removeRelay_closes [OF act] by blast
  qed
  from 1 2 3 4 show ?thesis by blast
qed

text \<open>
  The scenario of the spec, with the relay connected before it is added: the state is the
  fresh browser after \<^verbatim>\<open>connectToRelays(['wss://relay.test'])\<close>.
\<close>

lemma connected_state:
  "snd (connectToRelays ensureRelay_one_down [''wss://relay.test''] fresh_state) =
     fresh_state\<lparr>pool := Some [EnsureRelay ''wss://relay.test''],
                 activeRelays := [''wss://relay.test'' \<mapsto> ''wss://relay.test'']\<rparr>"
  by (simp add: connectToRelays_def getPool_def fresh_state_def ensureRelay_one_down_def)

theorem addRelay_then_removeRelay_witness:
  "reachable (snd (connectToRelays ensureRelay_one_down [''wss://relay.test''] fresh_state)) \<and>
   has_window (snd (connectToRelays ensureRelay_one_down [''wss://relay.test''] fresh_state)) \<and>
   \<not> setItem_throws (snd (connectToRelays ensureRelay_one_down [''wss://relay.test''] fresh_state)) \<and>
   ''wss://relay.test'' \<notin>
     set (getSavedRelays (snd (connectToRelays ensureRelay_one_down [''wss://relay.test''] fresh_state))) \<and>
   ''wss://relay.test'' \<in>
     set (getSavedRelays (addRelay ''wss://relay.test''
       (snd (connectToRelays ensureRelay_one_down [''wss://relay.test''] fresh_state)))) \<and>
   ''wss://relay.test'' \<notin>
     set (getSavedRelays (removeRelay ''wss://relay.test'' (addRelay ''wss://relay.test''
       (snd (connectToRelays ensureRelay_one_down [''wss://relay.test''] fresh_state))))) \<and>
   \<not> isRelayActive (removeRelay ''wss://relay.test'' (addRelay ''wss://relay.test''
       (snd (connectToRelays ensureRelay_one_down [''wss://relay.test''] fresh_state))))
       ''wss://relay.test'' \<and>
   pool (removeRelay ''wss://relay.test'' (addRelay ''wss://relay.test''
       (snd (connectToRelays ensureRelay_one_down [''wss://relay.test''] fresh_state)))) =
     Some [EnsureRelay ''wss://relay.test'', Close [''wss://relay.test'']]"
proof -
  let ?s = "snd (connectToRelays ensureRelay_one_down [''wss://relay.test''] fresh_state)"
  have "reachable fresh_state" by (rule reachable.start) (simp_all add: fresh_state_def)
  then have r: "reachable ?s" by (rule after_connectToRelays)
  have w: "has_window ?s" and t: "\<not> setItem_throws ?s"
    by (simp_all add: connected_state) (simp_all add: fresh_state_def)
  have n: "''wss://relay.test'' \<notin> set (getSavedRelays ?s)"
    unfolding connected_state by (simp add: getSavedRelays_def fresh_state_def DEFAULT_RELAYS_def)
  have act: "isRelayActive (addRelay ''wss://relay.test'' ?s) ''wss://relay.test''"
    by (simp add: isRelayActive_def addRelay_keeps connected_state)
  have p: "pool (addRelay ''wss://relay.test'' ?s) = Some [EnsureRelay ''wss://relay.test'']"
    by (simp add: addRelay_keeps connected_state)
  from addRelay_then_removeRelay [OF r w t n] act p r w t n show ?thesis by auto
qed

text \<open>
  Claim C10. When the URL is in the saved list already, \<^verbatim>\<open>addRelay\<close> changes nothing:
  the storage item, and with it the saved list and its order, stay as they were.
\<close>

theorem addRelay_idempotent:
  assumes "url \<in> set (getSavedRelays s)"
  shows "addRelay url s = s \<and> getSavedRelays (addRelay url s) = getSavedRelays s"
  using assms by (simp add: addRelay_def)

theorem addRelay_idempotent_witness:
  "''wss://nos.lol'' \<in> set (getSavedRelays fresh_state) \<and>
   addRelay ''wss://nos.lol'' fresh_state = fresh_state \<and>
   getSavedRelays (addRelay ''wss://nos.lol'' fresh_state) = getSavedRelays fresh_state"
proof -
  have h: "''wss://nos.lol'' \<in> set (getSavedRelays fresh_state)"
    by (simp add: getSavedRelays_def fresh_state_def DEFAULT_RELAYS_def)
  from addRelay_idempotent [OF h] h show ?thesis by simp
qed

section \<open>Connecting to several relays\<close>

lemma ensure_calls_ok:
  "fst (ensure_calls ensureRelay urls p) = (\<forall>u\<in>set urls. ensureRelay u \<noteq> Throws)"
  by (induction urls arbitrary: p) (auto split: call.splits)

lemma store_relays_apply:
  "store_relays ensureRelay urls a u =
     (if u \<in> set urls \<and> settle_connection ensureRelay u \<noteq> None
      then settle_connection ensureRelay u else a u)"
  by (induction urls arbitrary: a) (auto split: call.splits promise_result.splits)

lemma map_filter_settle:
  "\<forall>u\<in>set urls. ensureRelay u \<noteq> Throws \<Longrightarrow>
   map (\<lambda>r. Returns (Fulfilled r)) (List.map_filter (settle_connection ensureRelay) urls) =
   filter (\<lambda>c. c \<noteq> Returns Rejected) (map ensureRelay urls)"
  by (induction urls)
     (auto simp: List.map_filter_simps split: call.splits promise_result.splits)

text \<open>
  Claim C6. When no call of \<^verbatim>\<open>ensureRelay\<close> throws (a relay that cannot be reached
  rejects its promise), \<^verbatim>\<open>connectToRelays\<close> returns and does not throw; what it returns
  are the relays of the fulfilled promises, in the order of the URLs, each stored as
  active under its URL; a URL whose promise was rejected, and a URL that was not listed,
  keeps the entry it had.
\<close>

theorem connectToRelays_partial_success:
  assumes "\<forall>u\<in>set urls. ensureRelay u \<noteq> Throws"
  shows "\<exists>relays. fst (connectToRelays ensureRelay urls s) = Inr relays \<and>
           map (\<lambda>r. Returns (Fulfilled r)) relays =
             filter (\<lambda>c. c \<noteq> Returns Rejected) (map ensureRelay urls) \<and>
           (\<forall>u r. u \<in> set urls \<and> ensureRelay u = Returns (Fulfilled r) \<longrightarrow>
                  activeRelays (snd (connectToRelays ensureRelay urls s)) u = Some r) \<and>
           (\<forall>u. u \<notin> set urls \<or> ensureRelay u = Returns Rejected \<longrightarrow>
                  activeRelays (snd (connectToRelays ensureRelay urls s)) u = activeRelays s u)"
proof -
  obtain p s1 where g: "getPool s = (p, s1)" by (cases "getPool s")
  obtain ok p' where e: "ensure_calls ensureRelay urls p = (ok, p')"
    by (cases "ensure_calls ensureRelay urls p")
  have ok: "ok" using ensure_calls_ok [of ensureRelay urls p] e assms by simp
  have a1: "activeRelays s1 = activeRelays s"
    using g by (auto simp: getPool_def split: option.splits)
  have res: "connectToRelays ensureRelay urls s =
      (Inr (List.map_filter (settle_connection ensureRelay) urls),
       s1\<lparr>pool := Some p', activeRelays := store_relays ensureRelay urls (activeRelays s)\<rparr>)"
    using g e ok a1 by (simp add: connectToRelays_def)
  show ?thesis
    unfolding res using map_filter_settle [OF assms]
    by (auto simp: store_relays_apply)
qed

theorem connectToRelays_partial_success_witness:
  "list_all (\<lambda>u. ensureRelay_one_down u \<noteq> Throws)
     [''wss://relay.damus.io'', ''wss://nos.lol'', ''wss://relay.nostr.band''] \<and>
   fst (connectToRelays ensureRelay_one_down
          [''wss://relay.damus.io'', ''wss://nos.lol'', ''wss://relay.nostr.band''] fresh_state) =
     Inr [''wss://relay.damus.io'', ''wss://relay.nostr.band'']"
proof -
  let ?urls = "[''wss://relay.damus.io'', ''wss://nos.lol'', ''wss://relay.nostr.band'']"
  have h: "\<forall>u\<in>set ?urls. ensureRelay_one_down u \<noteq> Throws"
    by (simp add: ensureRelay_one_down_def)
  from connectToRelays_partial_success [OF h, of fresh_state] obtain relays where
    r: "fst (connectToRelays ensureRelay_one_down ?urls fresh_state) = Inr relays"
    and m: "map (\<lambda>r. Returns (Fulfilled r)) relays =
             filter (\<lambda>c. c \<noteq> Returns Rejected) (map ensureRelay_one_down ?urls)"
    by blast
  from m have "map (\<lambda>r. Returns (Fulfilled r)) relays =
      map (\<lambda>r. Returns (Fulfilled r)) [''wss://relay.damus.io'', ''wss://relay.nostr.band'']"
    by (simp add: ensureRelay_one_down_def)
  then have "relays = [''wss://relay.damus.io'', ''wss://relay.nostr.band'']"
    by (rule map_injective) (simp add: inj_on_def)
  with r h show ?thesis by (simp add: list_all_iff)
qed

section \<open>Sorting by timestamp\<close>

lemma mset_insert_sorted: "mset (insert_sorted cmp x ys) = add_mset x (mset ys)"
  by (induction ys) auto

lemma set_insert_sorted: "set (insert_sorted cmp x ys) = insert x (set ys)"
  by (induction ys) auto

lemma array_sort_Nil: "array_sort cmp [] = []"
  by (simp add: array_sort_def)

lemma array_sort_Cons: "array_sort cmp (x # xs) = insert_sorted cmp x (array_sort cmp xs)"
  by (simp add: array_sort_def)

lemma mset_array_sort: "mset (array_sort cmp xs) = mset xs"
  by (induction xs) (simp_all add: array_sort_Nil array_sort_Cons mset_insert_sorted)

lemma descending_insert_sorted:
  "descending ys \<Longrightarrow> descending (insert_sorted newest_first x ys)"
  unfolding descending_def
  by (induction ys) (auto simp: set_insert_sorted newest_first_def)

lemma descending_array_sort: "descending (array_sort newest_first xs)"
proof (induction xs)
  case Nil
  show ?case by (simp add: array_sort_Nil descending_def)
next
  case (Cons x xs)
  then show ?case by (simp add: array_sort_Cons descending_insert_sorted)
qed

text \<open>
  The head of the sorted list is the first element of the input that no other element
  beats: everything before it is strictly older, nothing after it is newer.
\<close>

lemma array_sort_head:
  "xs \<noteq> [] \<Longrightarrow>
   \<exists>pre e post rest. xs = pre @ e # post \<and> array_sort newest_first xs = e # rest \<and>
     (\<forall>x\<in>set pre. created_at x < created_at e) \<and>
     (\<forall>x\<in>set post. created_at x \<le> created_at e)"
proof (induction xs)
  case Nil
  then show ?case by simp
next
  case (Cons x xs)
  show ?case
  proof (cases "xs = []")
    case True
    then have "x # xs = [] @ x # []" "array_sort newest_first (x # xs) = x # []"
      by (simp_all add: array_sort_def)
    then show ?thesis by (metis empty_iff list.set(1))
  next
    case False
    from Cons.IH [OF False] obtain pre e post rest where
      xs: "xs = pre @ e # post" and srt: "array_sort newest_first xs = e # rest" and
      pre: "\<forall>y\<in>set pre. created_at y < created_at e" and
      post: "\<forall>y\<in>set post. created_at y \<le> created_at e"
      by blast
    show ?thesis
    proof (cases "created_at e \<le> created_at x")
      case True
      have "array_sort newest_first (x # xs) = x # e # rest"
        using True srt by (simp add: array_sort_Cons newest_first_def)
      moreover have "x # xs = [] @ x # xs" by simp
      moreover have "\<forall>y\<in>set xs. created_at y \<le> created_at x"
        using xs pre post True by auto
      ultimately show ?thesis by (metis empty_iff list.set(1))
    next
      case False
      have "array_sort newest_first (x # xs) = e # insert_sorted newest_first x rest"
        using False srt by (simp add: array_sort_Cons newest_first_def)
      moreover have "x # xs = (x # pre) @ e # post" using xs by simp
      moreover have "\<forall>y\<in>set (x # pre). created_at y < created_at e"
        using pre False by auto
      ultimately show ?thesis using post by blast
    qed
  qed
qed

section \<open>The newest metadata event\<close>

lemma fetchUserMetadata_sorted:
  "querySync relayUrls (metadata_filter pk) 3000 = Returns (Fulfilled evs) \<Longrightarrow>
   fetchUserMetadata querySync pk relayUrls =
     (case array_sort newest_first evs of [] \<Rightarrow> None | e # rest \<Rightarrow> Some e)"
  by (simp add: fetchUserMetadata_def fetchEvents_def)

lemma fetchUserMetadata_head:
  assumes "querySync relayUrls (metadata_filter pk) 3000 = Returns (Fulfilled evs)"
    and "evs \<noteq> []"
  shows "\<exists>pre e post. evs = pre @ e # post \<and>
           fetchUserMetadata querySync pk relayUrls = Some e \<and>
           (\<forall>x\<in>set pre. created_at x < created_at e) \<and>
           (\<forall>x\<in>set post. created_at x \<le> created_at e)"
proof -
  from array_sort_head [OF assms(2)] obtain pre e post rest where
    h: "evs = pre @ e # post" "array_sort newest_first evs = e # rest"
       "\<forall>x\<in>set pre. created_at x < created_at e"
       "\<forall>x\<in>set post. created_at x \<le> created_at e"
    by blast
  have "fetchUserMetadata querySync pk relayUrls = Some e"
    using fetchUserMetadata_sorted [of querySync relayUrls pk evs, OF assms(1)] h(2) by simp
  with h show ?thesis by blast
qed

text \<open>
  Claim C1, as the code has it. Let the pool answer the metadata query with the events
  \<open>evs\<close>, in their order of arrival. With no event the result is \<^verbatim>\<open>null\<close>. Otherwise the
  result is an event of maximal \<^verbatim>\<open>created_at\<close>, and among several of them the one that
  arrived first: every event before it is strictly older, no event after it is newer.
  The \<open>id\<close> plays no part. When only one event has the maximal \<^verbatim>\<open>created_at\<close>, any
  other order of arrival \<open>evs'\<close> of the same events gives the same result.
\<close>

theorem fetchUserMetadata_newest_first_arrived:
  assumes "querySync relayUrls (metadata_filter pk) 3000 = Returns (Fulfilled evs)"
    and "querySync' relayUrls (metadata_filter pk) 3000 = Returns (Fulfilled evs')"
    and "mset evs' = mset evs"
  shows "(evs = [] \<longrightarrow> fetchUserMetadata querySync pk relayUrls = None) \<and>
         (evs \<noteq> [] \<longrightarrow>
           (\<exists>pre e post. evs = pre @ e # post \<and>
              fetchUserMetadata querySync pk relayUrls = Some e \<and>
              (\<forall>x\<in>set pre. created_at x < created_at e) \<and>
              (\<forall>x\<in>set post. created_at x \<le> created_at e) \<and>
              ((\<forall>x\<in>set evs. created_at x = created_at e \<longrightarrow> x = e) \<longrightarrow>
                 fetchUserMetadata querySync' pk relayUrls = Some e)))"
proof (intro conjI impI)
  assume "evs = []"
  then show "fetchUserMetadata querySync pk relayUrls = None"
    using fetchUserMetadata_sorted [of querySync relayUrls pk evs, OF assms(1)]
    by (simp add: array_sort_Nil)
next
  assume ne: "evs \<noteq> []"
  from fetchUserMetadata_head [of querySync relayUrls pk evs, OF assms(1) ne] obtain pre e post where
    h: "evs = pre @ e # post" "fetchUserMetadata querySync pk relayUrls = Some e"
       "\<forall>x\<in>set pre. created_at x < created_at e"
       "\<forall>x\<in>set post. created_at x \<le> created_at e"
    by blast
  have max: "\<forall>x\<in>set evs. created_at x \<le> created_at e"
    using h(1,3,4) by auto
  have sets: "set evs' = set evs" using assms(3) by (rule mset_eq_setD)
  have ne': "evs' \<noteq> []" using ne sets by auto
  from fetchUserMetadata_head [of querySync' relayUrls pk evs', OF assms(2) ne'] obtain pre' e' post' where
    h': "evs' = pre' @ e' # post'" "fetchUserMetadata querySync' pk relayUrls = Some e'"
        "\<forall>x\<in>set pre'. created_at x < created_at e'"
        "\<forall>x\<in>set post'. created_at x \<le> created_at e'"
    by blast
  have max': "\<forall>x\<in>set evs'. created_at x \<le> created_at e'"
    using h'(1,3,4) by auto
  have "e \<in> set evs'" "e' \<in> set evs" using h(1) h'(1) sets by auto
  then have same: "created_at e' = created_at e"
    using max max' by (meson order_antisym)
  have uniq: "(\<forall>x\<in>set evs. created_at x = created_at e \<longrightarrow> x = e) \<longrightarrow>
        fetchUserMetadata querySync' pk relayUrls = Some e"
    using same \<open>e' \<in> set evs\<close> h'(2) by auto
  show "\<exists>pre e post. evs = pre @ e # post \<and>
              fetchUserMetadata querySync pk relayUrls = Some e \<and>
              (\<forall>x\<in>set pre. created_at x < created_at e) \<and>
              (\<forall>x\<in>set post. created_at x \<le> created_at e) \<and>
              ((\<forall>x\<in>set evs. created_at x = created_at e \<longrightarrow> x = e) \<longrightarrow>
                 fetchUserMetadata querySync' pk relayUrls = Some e)"
    using h uniq by blast
qed

text \<open>The events with timestamps 100 and 200 of the spec, in both orders of arrival.\<close>

theorem fetchUserMetadata_newest_first_arrived_witness:
  "querySync_returning [ev_old, ev_new] [''wss://nos.lol''] (metadata_filter ''ab'') 3000 =
     Returns (Fulfilled [ev_old, ev_new]) \<and>
   querySync_returning [ev_new, ev_old] [''wss://nos.lol''] (metadata_filter ''ab'') 3000 =
     Returns (Fulfilled [ev_new, ev_old]) \<and>
   mset [ev_new, ev_old] = mset [ev_old, ev_new] \<and>
   fetchUserMetadata (querySync_returning [ev_old, ev_new]) ''ab'' [''wss://nos.lol''] = Some ev_new \<and>
   fetchUserMetadata (querySync_returning [ev_new, ev_old]) ''ab'' [''wss://nos.lol''] = Some ev_new"
proof -
  have q: "querySync_returning [ev_old, ev_new] [''wss://nos.lol''] (metadata_filter ''ab'') 3000 =
     Returns (Fulfilled [ev_old, ev_new])"
    by (simp add: querySync_returning_def)
  have q': "querySync_returning [ev_new, ev_old] [''wss://nos.lol''] (metadata_filter ''ab'') 3000 =
     Returns (Fulfilled [ev_new, ev_old])"
    by (simp add: querySync_returning_def)
  have m: "mset [ev_new, ev_old] = mset [ev_old, ev_new]" by simp
  have ne: "[ev_old, ev_new] \<noteq> []" by simp
  have "\<exists>pre e post. [ev_old, ev_new] = pre @ e # post \<and>
      fetchUserMetadata (querySync_returning [ev_old, ev_new]) ''ab'' [''wss://nos.lol''] = Some e \<and>
      (\<forall>x\<in>set pre. created_at x < created_at e) \<and>
      (\<forall>x\<in>set post. created_at x \<le> created_at e) \<and>
      ((\<forall>x\<in>set [ev_old, ev_new]. created_at x = created_at e \<longrightarrow> x = e) \<longrightarrow>
         fetchUserMetadata (querySync_returning [ev_new, ev_old]) ''ab'' [''wss://nos.lol''] = Some e)"
    using fetchUserMetadata_newest_first_arrived
         [of "querySync_returning [ev_old, ev_new]" "[''wss://nos.lol'']" "''ab''"
             "[ev_old, ev_new]" "querySync_returning [ev_new, ev_old]" "[ev_new, ev_old]",
          OF q q' m] ne
    by blast
  then obtain pre e post where
    h: "[ev_old, ev_new] = pre @ e # post"
       "fetchUserMetadata (querySync_returning [ev_old, ev_new]) ''ab'' [''wss://nos.lol''] = Some e"
       "\<forall>x\<in>set pre. created_at x < created_at e"
       "\<forall>x\<in>set post. created_at x \<le> created_at e"
       "(\<forall>x\<in>set [ev_old, ev_new]. created_at x = created_at e \<longrightarrow> x = e) \<longrightarrow>
          fetchUserMetadata (querySync_returning [ev_new, ev_old]) ''ab'' [''wss://nos.lol''] = Some e"
    by blast
  have t: "created_at ev_old = 100" "created_at ev_new = 200"
    by (simp_all add: ev_old_def ev_new_def)
  have "e \<in> set [ev_old, ev_new]" using h(1) by (metis in_set_conv_decomp)
  then have "e = ev_old \<or> e = ev_new" by simp
  moreover have "e \<noteq> ev_old"
  proof
    assume e: "e = ev_old"
    have "ev_new \<in> set pre \<or> ev_new \<in> set post"
      using h(1) e t by (cases pre) (auto simp: Cons_eq_append_conv)
    then show False using h(3,4) e t by auto
  qed
  ultimately have e: "e = ev_new" by simp
  have "\<forall>x\<in>set [ev_old, ev_new]. created_at x = created_at e \<longrightarrow> x = e"
    using e t by simp
  with h(2,5) e q q' m show ?thesis by simp
qed

text \<open>
  The claim as written fails on a tie: of two events with the same \<^verbatim>\<open>created_at\<close> and
  the ids \<^verbatim>\<open>a\<close> and \<^verbatim>\<open>b\<close>, the result is the one that arrived first, so it is the event
  with the smaller id in one order of arrival and changes with the order.
\<close>

theorem fetchUserMetadata_tie_counterexample:
  "fetchUserMetadata (querySync_returning [ev_tie_a, ev_tie_b]) ''ab'' [''wss://nos.lol''] =
     Some ev_tie_a \<and>
   fetchUserMetadata (querySync_returning [ev_tie_b, ev_tie_a]) ''ab'' [''wss://nos.lol''] =
     Some ev_tie_b \<and>
   created_at ev_tie_a = created_at ev_tie_b \<and>
   id_e ev_tie_a = ''a'' \<and> id_e ev_tie_b = ''b'' \<and> ev_tie_a \<noteq> ev_tie_b"
  by (simp add: fetchUserMetadata_def fetchEvents_def querySync_returning_def array_sort_def
        newest_first_def ev_tie_a_def ev_tie_b_def)

section \<open>Merging and deduplicating event lists\<close>

lemma findIndex_range:
  "findIndex p xs = -1 \<or> (0 \<le> findIndex p xs \<and> findIndex p xs < int (length xs))"
  by (induction xs) (auto simp: Let_def)

lemma findIndex_first:
  "i < length xs \<Longrightarrow> (int i = findIndex p xs) = (p (xs ! i) \<and> (\<forall>j<i. \<not> p (xs ! j)))"
proof (induction xs arbitrary: i)
  case Nil
  then show ?case by simp
next
  case (Cons x xs)
  show ?case
  proof (cases i)
    case 0
    then show ?thesis using findIndex_range [of p xs] by (auto simp: Let_def)
  next
    case (Suc k)
    then have k: "k < length xs" using Cons.prems by simp
    have all: "(\<forall>j<Suc k. \<not> p ((x # xs) ! j)) = (\<not> p x \<and> (\<forall>j<k. \<not> p (xs ! j)))"
      by (auto simp: less_Suc_eq_0_disj)
    show ?thesis
      using Cons.IH [OF k] findIndex_range [of p xs] unfolding Suc all
      by (auto simp: Let_def)
  qed
qed

lemma in_first_seen:
  "x \<in> set (first_seen f xs) = (\<exists>i<length xs. xs ! i = x \<and> (\<forall>j<i. f (xs ! j) \<noteq> f x))"
  by (auto simp: first_seen_def filter_indexed_def in_set_enumerate_eq findIndex_first image_iff)

lemma first_seen_eq:
  "first_seen f xs =
     map snd (filter (\<lambda>(i, x). \<forall>j<i. f (xs ! j) \<noteq> f x) (List.enumerate 0 xs))"
  unfolding first_seen_def filter_indexed_def
  by (rule arg_cong [where f = "map snd"], rule filter_cong)
     (auto simp: in_set_enumerate_eq findIndex_first)

lemma distinct_first_seen: "distinct (map f (first_seen f xs))"
proof -
  let ?L = "filter (\<lambda>(i, x). \<forall>j<i. f (xs ! j) \<noteq> f x) (List.enumerate 0 xs)"
  have d: "distinct ?L" by (simp add: distinct_enumerate)
  have inj: "inj_on (f \<circ> snd) (set ?L)"
  proof (rule inj_onI)
    fix a b assume a: "a \<in> set ?L" and b: "b \<in> set ?L" and eq: "(f \<circ> snd) a = (f \<circ> snd) b"
    obtain i x where ax: "a = (i, x)" by (cases a)
    obtain k y where bx: "b = (k, y)" by (cases b)
    from a ax have ai: "i < length xs" "x = xs ! i" "\<forall>j<i. f (xs ! j) \<noteq> f x"
      by (auto simp: in_set_enumerate_eq)
    from b bx have bk: "k < length xs" "y = xs ! k" "\<forall>j<k. f (xs ! j) \<noteq> f y"
      by (auto simp: in_set_enumerate_eq)
    from eq ax bx have fxy: "f x = f y" by simp
    have "i = k"
    proof (rule ccontr)
      assume "i \<noteq> k"
      then consider "i < k" | "k < i" by linarith
      then show False
      proof cases
        case 1 then show False using bk(3) ai(2) fxy by auto
      next
        case 2 then show False using ai(3) bk(2) fxy by auto
      qed
    qed
    then show "a = b" using ax bx ai(2) bk(2) by simp
  qed
  have "distinct (map (f \<circ> snd) ?L)" using d inj by (simp add: distinct_map)
  then show ?thesis by (simp add: first_seen_eq)
qed

lemma first_seen_keys: "f ` set (first_seen f xs) = f ` set xs"
proof
  show "f ` set (first_seen f xs) \<subseteq> f ` set xs"
    by (auto simp: in_first_seen)
next
  show "f ` set xs \<subseteq> f ` set (first_seen f xs)"
  proof
    fix v assume "v \<in> f ` set xs"
    then obtain i where i: "i < length xs \<and> f (xs ! i) = v"
      by (auto simp: in_set_conv_nth)
    define m where "m = (LEAST i. i < length xs \<and> f (xs ! i) = v)"
    have m: "m < length xs \<and> f (xs ! m) = v"
      unfolding m_def by (rule LeastI [where P = "\<lambda>i. i < length xs \<and> f (xs ! i) = v", OF i])
    have least: "\<And>j. j < m \<Longrightarrow> \<not> (j < length xs \<and> f (xs ! j) = v)"
      unfolding m_def by (rule not_less_Least)
    have "xs ! m \<in> set (first_seen f xs)"
      unfolding in_first_seen using m least by (intro exI [of _ m]) auto
    then show "v \<in> f ` set (first_seen f xs)" using m by force
  qed
qed

lemma first_seen_copy:
  assumes "x \<in> set (first_seen f xs)"
  shows "\<exists>pre post. xs = pre @ x # post \<and> f x \<notin> f ` set pre"
proof -
  from assms obtain i where i: "i < length xs" "xs ! i = x" "\<forall>j<i. f (xs ! j) \<noteq> f x"
    unfolding in_first_seen by blast
  have "xs = take i xs @ x # drop (Suc i) xs"
    using i(1,2) id_take_nth_drop [of i xs] by simp
  moreover have "f x \<notin> f ` set (take i xs)"
  proof
    assume "f x \<in> f ` set (take i xs)"
    then obtain j where "j < i" "f (xs ! j) = f x"
      using i(1) by (auto simp: in_set_conv_nth)
    then show False using i(3) by blast
  qed
  ultimately show ?thesis by blast
qed

lemma merge_events_eq:
  "merge_events prev pending = array_sort newest_first (first_seen id_e (prev @ pending))"
  by (simp add: merge_events_def first_seen_def)

lemma set_merge_events: "set (merge_events prev pending) = set (first_seen id_e (prev @ pending))"
  unfolding merge_events_eq using mset_array_sort by (metis set_mset_mset)

lemma merge_events_distinct: "distinct (map id_e (merge_events prev pending))"
proof -
  have "mset (map id_e (merge_events prev pending)) =
        mset (map id_e (first_seen id_e (prev @ pending)))"
    by (simp add: merge_events_eq mset_array_sort)
  then show ?thesis using distinct_first_seen [of id_e "prev @ pending"]
    by (metis mset_eq_imp_distinct_iff)
qed

text \<open>
  Claim C2, as the code has it. \<^verbatim>\<open>fetchEvents\<close> returns the list the pool's query is
  fulfilled with, as it is: it removes no duplicate and does not sort. The hook sorts
  what it fetched by \<^verbatim>\<open>created_at\<close>, newest first, keeping every event. The merge step,
  run with pending events, leaves a list in which no id occurs twice, sorted by
  \<^verbatim>\<open>created_at\<close>, newest first, with exactly the ids of the shown and the pending
  events, and of each id the copy seen first.
\<close>

theorem fetchEvents_as_delivered_merge_unique_sorted:
  assumes "querySync relayUrls f 3000 = Returns (Fulfilled evs)"
    and "pendingEvents h \<noteq> []"
  shows "fetchEvents querySync f relayUrls 3000 = evs \<and>
         descending (events (fetchEventsData True querySync f relayUrls h)) \<and>
         mset (events (fetchEventsData True querySync f relayUrls h)) = mset evs \<and>
         distinct (map id_e (events (applyPendingEvents h))) \<and>
         descending (events (applyPendingEvents h)) \<and>
         id_e ` set (events (applyPendingEvents h)) =
           id_e ` (set (events h) \<union> set (pendingEvents h)) \<and>
         (\<forall>x\<in>set (events (applyPendingEvents h)).
            \<exists>pre post. events h @ pendingEvents h = pre @ x # post \<and> id_e x \<notin> id_e ` set pre)"
proof -
  have fe: "fetchEvents querySync f relayUrls 3000 = evs"
    using assms(1) by (simp add: fetchEvents_def)
  have fd: "events (fetchEventsData True querySync f relayUrls h) = array_sort newest_first evs"
    using fe by (simp add: fetchEventsData_def)
  have ap: "events (applyPendingEvents h) = merge_events (events h) (pendingEvents h)"
    using assms(2) by (simp add: applyPendingEvents_def)
  have keys: "id_e ` set (merge_events (events h) (pendingEvents h)) =
      id_e ` (set (events h) \<union> set (pendingEvents h))"
    unfolding set_merge_events first_seen_keys by simp
  have copy: "\<forall>x\<in>set (merge_events (events h) (pendingEvents h)).
      \<exists>pre post. events h @ pendingEvents h = pre @ x # post \<and> id_e x \<notin> id_e ` set pre"
    unfolding set_merge_events using first_seen_copy by fast
  have d: "descending (merge_events (events h) (pendingEvents h))"
    unfolding merge_events_eq by (rule descending_array_sort)
  show ?thesis
    unfolding fd ap using fe keys copy d
    by (simp add: descending_array_sort mset_array_sort merge_events_distinct)
qed

text \<open>
  One event is on screen, the same event and a newer one are pending; the pool delivers
  the older event before the newer one.
\<close>

theorem fetchEvents_as_delivered_merge_unique_sorted_witness:
  "querySync_returning [ev_old, ev_new] [''wss://nos.lol''] (metadata_filter ''ab'') 3000 =
     Returns (Fulfilled [ev_old, ev_new]) \<and>
   pendingEvents \<lparr>events = [ev_old], pendingEvents = [ev_old, ev_new],
                  hasNewEvents = True, isLoading = False\<rparr> \<noteq> [] \<and>
   fetchEvents (querySync_returning [ev_old, ev_new]) (metadata_filter ''ab'')
     [''wss://nos.lol''] 3000 = [ev_old, ev_new] \<and>
   distinct (map id_e (events (applyPendingEvents
     \<lparr>events = [ev_old], pendingEvents = [ev_old, ev_new],
      hasNewEvents = True, isLoading = False\<rparr>))) \<and>
   descending (events (applyPendingEvents
     \<lparr>events = [ev_old], pendingEvents = [ev_old, ev_new],
      hasNewEvents = True, isLoading = False\<rparr>))"
proof -
  let ?h = "\<lparr>events = [ev_old], pendingEvents = [ev_old, ev_new],
             hasNewEvents = True, isLoading = False\<rparr>"
  have q: "querySync_returning [ev_old, ev_new] [''wss://nos.lol''] (metadata_filter ''ab'') 3000 =
     Returns (Fulfilled [ev_old, ev_new])"
    by (simp add: querySync_returning_def)
  have p: "pendingEvents ?h \<noteq> []" by simp
  from fetchEvents_as_delivered_merge_unique_sorted
         [of "querySync_returning [ev_old, ev_new]" "[''wss://nos.lol'']"
             "metadata_filter ''ab''" "[ev_old, ev_new]" ?h, OF q p] q p
  show ?thesis by blast
qed

text \<open>
  The claim as written fails for \<^verbatim>\<open>fetchEvents\<close>: when the pool delivers the older event
  before the newer one, that is the order of the result.
\<close>

theorem fetchEvents_unsorted_counterexample:
  "fetchEvents (querySync_returning [ev_old, ev_new]) (metadata_filter ''ab'')
     [''wss://nos.lol''] 3000 = [ev_old, ev_new] \<and>
   \<not> descending (fetchEvents (querySync_returning [ev_old, ev_new]) (metadata_filter ''ab'')
     [''wss://nos.lol''] 3000)"
  by (simp add: fetchEvents_def querySync_returning_def descending_def ev_old_def ev_new_def)

section \<open>An empty result\<close>

text \<open>
  Claim C4, as the code has it. When the pool's query throws, is rejected, or is
  fulfilled with no events, \<^verbatim>\<open>fetchEvents\<close> returns the empty list and does not throw.
  The list is all it returns: a failed query and a query that matched nothing give the
  same result.
\<close>

theorem fetchEvents_failure_is_empty:
  assumes "querySync relayUrls f maxWait = Throws \<or>
           querySync relayUrls f maxWait = Returns Rejected \<or>
           querySync relayUrls f maxWait = Returns (Fulfilled [])"
  shows "fetchEvents querySync f relayUrls maxWait = []"
  using assms by (auto simp: fetchEvents_def)

theorem fetchEvents_failure_is_empty_witness:
  "(querySync_throwing [''wss://nos.lol''] (metadata_filter ''ab'') 3000 = Throws \<or>
    querySync_throwing [''wss://nos.lol''] (metadata_filter ''ab'') 3000 = Returns Rejected \<or>
    querySync_throwing [''wss://nos.lol''] (metadata_filter ''ab'') 3000 = Returns (Fulfilled [])) \<and>
   fetchEvents querySync_throwing (metadata_filter ''ab'') [''wss://nos.lol''] 3000 = []"
proof -
  have h: "querySync_throwing [''wss://nos.lol''] (metadata_filter ''ab'') 3000 = Throws \<or>
    querySync_throwing [''wss://nos.lol''] (metadata_filter ''ab'') 3000 = Returns Rejected \<or>
    querySync_throwing [''wss://nos.lol''] (metadata_filter ''ab'') 3000 = Returns (Fulfilled [])"
    by (simp add: querySync_throwing_def)
  from fetchEvents_failure_is_empty
         [of querySync_throwing "[''wss://nos.lol'']" "metadata_filter ''ab''" 3000, OF h] h
  show ?thesis by blast
qed

text \<open>
  The claim as written fails: the result of a query on a pool that throws, the result on
  a pool that rejects and the result of a fulfilled query without events are equal, so
  nothing the caller receives tells them apart.
\<close>

theorem fetchEvents_indistinguishable_counterexample:
  "fetchEvents querySync_throwing (metadata_filter ''ab'') [''wss://nos.lol''] 3000 =
     fetchEvents (querySync_returning []) (metadata_filter ''ab'') [''wss://nos.lol''] 3000 \<and>
   fetchEvents querySync_rejecting (metadata_filter ''ab'') [''wss://nos.lol''] 3000 =
     fetchEvents (querySync_returning []) (metadata_filter ''ab'') [''wss://nos.lol''] 3000"
  by (simp add: fetchEvents_def querySync_throwing_def querySync_rejecting_def
        querySync_returning_def)

section \<open>Publishing to several relays\<close>

lemma init_results_fold:
  "foldl (\<lambda>results relayUrl. results(relayUrl \<mapsto> False)) m relayUrls u =
     (if u \<in> set relayUrls then Some False else m u)"
  by (induction relayUrls arbitrary: m) auto

lemma init_results_apply:
  "init_results relayUrls u = (if u \<in> set relayUrls then Some False else None)"
  by (simp add: init_results_def init_results_fold)

lemma update_results_apply:
  "update_results relayUrls m settled u =
     (if \<exists>(r, i) \<in> set settled. is_fulfilled r \<and> relayUrl_at relayUrls i = u
      then Some True else m u)"
proof (induction settled arbitrary: m)
  case Nil
  then show ?case by (simp add: update_results_def)
next
  case (Cons a settled)
  obtain r i where a: "a = (r, i)" by (cases a)
  have step: "update_results relayUrls m (a # settled) =
      update_results relayUrls
        (if is_fulfilled r then m(relayUrl_at relayUrls i \<mapsto> True) else m) settled"
    by (simp add: update_results_def a)
  show ?case unfolding step Cons.IH
    by (auto simp: a)
qed

lemma settled_with_index:
  assumes "length publishPromises = length relayUrls"
  shows "(\<exists>(r, i) \<in> set (zip publishPromises [0 ..< length publishPromises]).
            is_fulfilled r \<and> relayUrl_at relayUrls i = u) =
         (\<exists>i<length relayUrls. relayUrls ! i = u \<and> is_fulfilled (publishPromises ! i))"
proof -
  have zip_set: "set (zip publishPromises [0 ..< length publishPromises]) =
      {(publishPromises ! i, i) | i. i < length relayUrls}"
    using assms by (auto simp: set_zip)
  show ?thesis unfolding zip_set by (auto simp: relayUrl_at_def)
qed

text \<open>
  Claim C3. Let \<^verbatim>\<open>pool.publish\<close> return one promise per listed URL, each settled as
  fulfilled or as rejected (a relay that timed out has a rejected promise). Then
  \<^verbatim>\<open>publishEvent\<close> returns and does not throw; the result has exactly the listed URLs as
  keys; a URL is marked \<^verbatim>\<open>true\<close> when a promise of that URL was fulfilled and \<^verbatim>\<open>false\<close>
  when none was; with every URL listed once, the entry of the \<open>i\<close>-th URL is the outcome
  of the \<open>i\<close>-th promise and of no other, whatever mixture of outcomes there is.
\<close>

theorem publishEvent_one_entry_per_relay:
  assumes "publish relayUrls ev = Returns publishPromises"
    and "length publishPromises = length relayUrls"
  shows "\<exists>acks. publishEvent publish ev relayUrls = Inr acks \<and> dom acks = set relayUrls \<and>
           (\<forall>u\<in>set relayUrls.
              acks u = Some (\<exists>i<length relayUrls.
                               relayUrls ! i = u \<and> is_fulfilled (publishPromises ! i))) \<and>
           (distinct relayUrls \<longrightarrow>
              (\<forall>i<length relayUrls. acks (relayUrls ! i) = Some (is_fulfilled (publishPromises ! i))))"
proof -
  let ?acks = "update_results relayUrls (init_results relayUrls)
                 (zip publishPromises [0 ..< length publishPromises])"
  have pe: "publishEvent publish ev relayUrls = Inr ?acks"
    using assms(1) by (simp add: publishEvent_def)
  have val: "\<And>u. ?acks u =
      (if u \<in> set relayUrls
       then Some (\<exists>i<length relayUrls. relayUrls ! i = u \<and> is_fulfilled (publishPromises ! i))
       else None)"
    unfolding update_results_apply settled_with_index [OF assms(2)] init_results_apply
    by (auto simp: in_set_conv_nth)
  have d: "dom ?acks = set relayUrls"
    unfolding dom_def val by auto
  have each: "distinct relayUrls \<longrightarrow>
      (\<forall>i<length relayUrls. ?acks (relayUrls ! i) = Some (is_fulfilled (publishPromises ! i)))"
  proof (intro impI allI)
    fix i assume dist: "distinct relayUrls" and i: "i < length relayUrls"
    have "(\<exists>j<length relayUrls. relayUrls ! j = relayUrls ! i \<and> is_fulfilled (publishPromises ! j))
          = is_fulfilled (publishPromises ! i)"
      using dist i by (auto simp: nth_eq_iff_index_eq)
    then show "?acks (relayUrls ! i) = Some (is_fulfilled (publishPromises ! i))"
      unfolding val using i by simp
  qed
  from pe d val each show ?thesis by auto
qed

text \<open>Three relays of which the second does not acknowledge.\<close>

theorem publishEvent_one_entry_per_relay_witness:
  "publish_one_down [''wss://relay.damus.io'', ''wss://nos.lol'', ''wss://relay.nostr.band''] ev_new =
     Returns [Fulfilled ''ok'', Rejected, Fulfilled ''ok''] \<and>
   length [Fulfilled ''ok'', Rejected, Fulfilled ''ok''] =
     length [''wss://relay.damus.io'', ''wss://nos.lol'', ''wss://relay.nostr.band''] \<and>
   (\<exists>acks. publishEvent publish_one_down ev_new
              [''wss://relay.damus.io'', ''wss://nos.lol'', ''wss://relay.nostr.band''] = Inr acks \<and>
      dom acks = {''wss://relay.damus.io'', ''wss://nos.lol'', ''wss://relay.nostr.band''} \<and>
      acks ''wss://relay.damus.io'' = Some True \<and>
      acks ''wss://nos.lol'' = Some False \<and>
      acks ''wss://relay.nostr.band'' = Some True)"
proof -
  let ?urls = "[''wss://relay.damus.io'', ''wss://nos.lol'', ''wss://relay.nostr.band'']"
  let ?ps = "[Fulfilled ''ok'', Rejected, Fulfilled ''ok''] :: string promise_result list"
  have p: "publish_one_down ?urls ev_new = Returns ?ps"
    by (simp add: publish_one_down_def)
  have l: "length ?ps = length ?urls" by simp
  have dist: "distinct ?urls" by simp
  from publishEvent_one_entry_per_relay [of publish_one_down ?urls ev_new ?ps, OF p l] dist
  obtain acks where a: "publishEvent publish_one_down ev_new ?urls = Inr acks"
    "dom acks = set ?urls"
    "\<forall>i<length ?urls. acks (?urls ! i) = Some (is_fulfilled (?ps ! i))"
    by blast
  have "acks ''wss://relay.damus.io'' = Some True"
    using a(3) [rule_format, of 0] by (simp add: is_fulfilled_def)
  moreover have "acks ''wss://nos.lol'' = Some False"
    using a(3) [rule_format, of 1] by (simp add: is_fulfilled_def)
  moreover have "acks ''wss://relay.nostr.band'' = Some True"
    using a(3) [rule_format, of 2] by (simp add: is_fulfilled_def)
  moreover have "dom acks = {''wss://relay.damus.io'', ''wss://nos.lol'', ''wss://relay.nostr.band''}"
    using a(2) by simp
  ultimately show ?thesis using a(1) p l by blast
qed

section \<open>Subscriptions\<close>

lemma subscribeMany_run_fresh:
  "set (map id_e (subscribeMany_run relayUrls st inputs)) \<inter> set (known_ids st) = {} \<and>
   distinct (map id_e (subscribeMany_run relayUrls st inputs))"
proof (induction inputs arbitrary: st)
  case Nil
  then show ?case by simp
next
  case (Cons i inputs)
  show ?case
  proof (cases i)
    case CloseCalled
    then show ?thesis using Cons.IH [of "st\<lparr>closed := True\<rparr>"]
      by (simp add: subscribeMany_step_def)
  next
    case (Incoming relay ev)
    show ?thesis
    proof (cases "closed st \<or> relay \<notin> set relayUrls \<or> id_e ev \<in> set (known_ids st)")
      case True
      then show ?thesis using Cons.IH [of st] Incoming
        by (simp add: subscribeMany_step_def)
    next
      case False
      then show ?thesis
        using Cons.IH [of "st\<lparr>known_ids := id_e ev # known_ids st\<rparr>"] Incoming
        by (auto simp: subscribeMany_step_def)
    qed
  qed
qed

lemma subscribeMany_run_delivers:
  "\<not> closed st \<Longrightarrow> CloseCalled \<notin> set inputs \<Longrightarrow> Incoming relay ev \<in> set inputs \<Longrightarrow>
   relay \<in> set relayUrls \<Longrightarrow>
   id_e ev \<in> set (known_ids st) \<union> set (map id_e (subscribeMany_run relayUrls st inputs))"
proof (induction inputs arbitrary: st)
  case Nil
  then show ?case by simp
next
  case (Cons i inputs)
  show ?case
  proof (cases i)
    case CloseCalled
    then show ?thesis using Cons.prems by simp
  next
    case (Incoming r e)
    show ?thesis
    proof (cases "r \<notin> set relayUrls \<or> id_e e \<in> set (known_ids st)")
      case True
      then have run: "subscribeMany_run relayUrls st (i # inputs) =
          subscribeMany_run relayUrls st inputs"
        using Incoming by (auto simp: subscribeMany_step_def)
      show ?thesis
      proof (cases "Incoming relay ev = i")
        case same: True
        then show ?thesis using True Incoming Cons.prems by auto
      next
        case False
        then have "Incoming relay ev \<in> set inputs" using Cons.prems by auto
        then show ?thesis unfolding run using Cons.IH [of st] Cons.prems by auto
      qed
    next
      case False
      let ?st = "st\<lparr>known_ids := id_e e # known_ids st\<rparr>"
      have run: "subscribeMany_run relayUrls st (i # inputs) =
          e # subscribeMany_run relayUrls ?st inputs"
        using False Incoming Cons.prems(1) by (auto simp: subscribeMany_step_def)
      show ?thesis
      proof (cases "Incoming relay ev = i")
        case True
        then show ?thesis unfolding run using Incoming by auto
      next
        case other: False
        then have "Incoming relay ev \<in> set inputs" using Cons.prems by auto
        then show ?thesis unfolding run using Cons.IH [of ?st] Cons.prems by auto
      qed
    qed
  qed
qed

lemma at_most_one_with_key:
  "distinct (map f xs) \<Longrightarrow> length (filter (\<lambda>x. f x = k) xs) \<le> 1"
proof (induction xs)
  case Nil
  then show ?case by simp
next
  case (Cons x xs)
  show ?case
  proof (cases "f x = k")
    case True
    have "f x \<notin> f ` set xs" using Cons.prems by simp
    then have "\<forall>y\<in>set xs. f y \<noteq> k" using True by (metis imageI)
    then have "filter (\<lambda>x. f x = k) xs = []"
      by (simp add: filter_empty_conv)
    then show ?thesis using True by simp
  next
    case False
    then show ?thesis using Cons by simp
  qed
qed

text \<open>
  Claim C5. For every sequence of events coming in from the relays and of calls of
  \<^verbatim>\<open>close\<close>, and for every id, \<^verbatim>\<open>subscribeToEvents\<close> calls \<^verbatim>\<open>onEvent\<close> at most once with
  an event of that id; until the subscription is closed, every event that comes in from
  a listed relay has its id passed to \<^verbatim>\<open>onEvent\<close>.
\<close>

theorem subscribeToEvents_at_most_once_per_id:
  "length (filter (\<lambda>c. id_e (fst c) = i) (subscribeToEvents subscribeMany relayUrls inputs)) \<le> 1 \<and>
   (CloseCalled \<notin> set inputs \<and> Incoming relay ev \<in> set inputs \<and> relay \<in> set relayUrls \<longrightarrow>
      id_e ev \<in> set (map (\<lambda>c. id_e (fst c)) (subscribeToEvents subscribeMany relayUrls inputs)))"
proof -
  let ?st = "\<lparr>known_ids = [], closed = False\<rparr>"
  have m: "map (\<lambda>c. id_e (fst c)) (subscribeToEvents subscribeMany relayUrls inputs) =
      map id_e (subscribeMany_run relayUrls ?st inputs)"
    by (simp add: subscribeToEvents_def subscribeMany_def comp_def)
  have "distinct (map (\<lambda>c. id_e (fst c)) (subscribeToEvents subscribeMany relayUrls inputs))"
    unfolding m using subscribeMany_run_fresh [of relayUrls ?st inputs] by simp
  then have 1: "length (filter (\<lambda>c. id_e (fst c) = i)
      (subscribeToEvents subscribeMany relayUrls inputs)) \<le> 1"
    by (rule at_most_one_with_key)
  have 2: "CloseCalled \<notin> set inputs \<and> Incoming relay ev \<in> set inputs \<and> relay \<in> set relayUrls \<longrightarrow>
      id_e ev \<in> set (map (\<lambda>c. id_e (fst c)) (subscribeToEvents subscribeMany relayUrls inputs))"
    unfolding m using subscribeMany_run_delivers [of ?st inputs relay ev relayUrls] by simp
  from 1 2 show ?thesis by simp
qed

text \<open>The newer event comes in from two relays, the older one from one of them.\<close>

theorem subscribeToEvents_at_most_once_per_id_witness:
  "CloseCalled \<notin> set [Incoming ''wss://nos.lol'' ev_new, Incoming ''wss://relay.damus.io'' ev_new,
                       Incoming ''wss://nos.lol'' ev_old] \<and>
   Incoming ''wss://relay.damus.io'' ev_new \<in>
     set [Incoming ''wss://nos.lol'' ev_new, Incoming ''wss://relay.damus.io'' ev_new,
          Incoming ''wss://nos.lol'' ev_old] \<and>
   ''wss://relay.damus.io'' \<in> set [''wss://nos.lol'', ''wss://relay.damus.io''] \<and>
   length (filter (\<lambda>c. id_e (fst c) = id_e ev_new)
     (subscribeToEvents subscribeMany [''wss://nos.lol'', ''wss://relay.damus.io'']
        [Incoming ''wss://nos.lol'' ev_new, Incoming ''wss://relay.damus.io'' ev_new,
         Incoming ''wss://nos.lol'' ev_old])) \<le> 1 \<and>
   id_e ev_new \<in> set (map (\<lambda>c. id_e (fst c))
     (subscribeToEvents subscribeMany [''wss://nos.lol'', ''wss://relay.damus.io'']
        [Incoming ''wss://nos.lol'' ev_new, Incoming ''wss://relay.damus.io'' ev_new,
         Incoming ''wss://nos.lol'' ev_old]))"
proof -
  let ?inputs = "[Incoming ''wss://nos.lol'' ev_new, Incoming ''wss://relay.damus.io'' ev_new,
                  Incoming ''wss://nos.lol'' ev_old]"
  have h: "CloseCalled \<notin> set ?inputs"
    "Incoming ''wss://relay.damus.io'' ev_new \<in> set ?inputs"
    "''wss://relay.damus.io'' \<in> set [''wss://nos.lol'', ''wss://relay.damus.io'']"
    by simp_all
  from subscribeToEvents_at_most_once_per_id
         [of "id_e ev_new" "[''wss://nos.lol'', ''wss://relay.damus.io'']" ?inputs
             "''wss://relay.damus.io''" ev_new] h
  show ?thesis by blast
qed

section \<open>Creating events without a usable key\<close>

lemma no_key_throws:
  assumes "getPrivateKey s = None \<or> getPrivateKey s = Some []"
  shows "createNoteEvent hexToBytes' finalizeEvent now s content_arg tags_arg =
           Inl NoPrivateKeyAvailable"
    and "createReactionEvent hexToBytes' finalizeEvent now s eventId pk reaction =
           Inl NoPrivateKeyAvailable"
    and "updateUserMetadata hexToBytes' finalizeEvent publish stringify now s metadata relayUrls =
           Inl NoPrivateKeyAvailable"
  using assms
  by (auto simp: createNoteEvent_def createReactionEvent_def updateUserMetadata_def)

lemma rejected_key_sign_template:
  assumes "hexToBytes' privateKeyHex = Throws \<or>
     (\<exists>bytes. hexToBytes' privateKeyHex = Returns bytes \<and>
              (\<forall>eventTemplate. finalizeEvent eventTemplate bytes = Throws))"
  shows "sign_template hexToBytes' finalizeEvent privateKeyHex eventTemplate = Throws"
  using assms by (auto simp: sign_template_def)

lemma rejected_key_null:
  assumes "getPrivateKey s = Some privateKeyHex" and "privateKeyHex \<noteq> []"
    and "hexToBytes' privateKeyHex = Throws \<or>
     (\<exists>bytes. hexToBytes' privateKeyHex = Returns bytes \<and>
              (\<forall>eventTemplate. finalizeEvent eventTemplate bytes = Throws))"
  shows "createNoteEvent hexToBytes' finalizeEvent now s content_arg tags_arg = Inr None"
    and "createReactionEvent hexToBytes' finalizeEvent now s eventId pk reaction = Inr None"
    and "updateUserMetadata hexToBytes' finalizeEvent publish stringify now s metadata relayUrls =
           Inr None"
  using assms(1,2)
  by (simp_all add: createNoteEvent_def createReactionEvent_def updateUserMetadata_def
        rejected_key_sign_template [of hexToBytes' privateKeyHex finalizeEvent, OF assms(3)])

text \<open>
  Claim C7, as the code has it. With no private key in storage (none, or the empty
  string) each of the three operations throws \<^verbatim>\<open>No private key available\<close>. With a key
  that \<^verbatim>\<open>hexToBytes\<close> or the signer rejects, the throw is caught inside the operation,
  which logs it and returns \<^verbatim>\<open>null\<close>: the caller gets no error.
\<close>

theorem create_event_without_usable_key:
  "(getPrivateKey s = None \<or> getPrivateKey s = Some [] \<longrightarrow>
      createNoteEvent hexToBytes' finalizeEvent now s content_arg tags_arg =
        Inl NoPrivateKeyAvailable \<and>
      createReactionEvent hexToBytes' finalizeEvent now s eventId pk reaction =
        Inl NoPrivateKeyAvailable \<and>
      updateUserMetadata hexToBytes' finalizeEvent publish stringify now s metadata relayUrls =
        Inl NoPrivateKeyAvailable) \<and>
   (getPrivateKey s = Some privateKeyHex \<and> privateKeyHex \<noteq> [] \<and>
    (hexToBytes' privateKeyHex = Throws \<or>
     (\<exists>bytes. hexToBytes' privateKeyHex = Returns bytes \<and>
              (\<forall>eventTemplate. finalizeEvent eventTemplate bytes = Throws))) \<longrightarrow>
      createNoteEvent hexToBytes' finalizeEvent now s content_arg tags_arg = Inr None \<and>
      createReactionEvent hexToBytes' finalizeEvent now s eventId pk reaction = Inr None \<and>
      updateUserMetadata hexToBytes' finalizeEvent publish stringify now s metadata relayUrls =
        Inr None)"
proof (intro conjI impI)
  assume a: "getPrivateKey s = None \<or> getPrivateKey s = Some []"
  show "createNoteEvent hexToBytes' finalizeEvent now s content_arg tags_arg =
        Inl NoPrivateKeyAvailable"
    using a by (rule no_key_throws)
  show "createReactionEvent hexToBytes' finalizeEvent now s eventId pk reaction =
        Inl NoPrivateKeyAvailable"
    using a by (rule no_key_throws)
  show "updateUserMetadata hexToBytes' finalizeEvent publish stringify now s metadata relayUrls =
        Inl NoPrivateKeyAvailable"
    using a by (rule no_key_throws)
next
  assume b: "getPrivateKey s = Some privateKeyHex \<and> privateKeyHex \<noteq> [] \<and>
    (hexToBytes' privateKeyHex = Throws \<or>
     (\<exists>bytes. hexToBytes' privateKeyHex = Returns bytes \<and>
              (\<forall>eventTemplate. finalizeEvent eventTemplate bytes = Throws)))"
  then have k: "getPrivateKey s = Some privateKeyHex" and ne: "privateKeyHex \<noteq> []"
    and rej: "hexToBytes' privateKeyHex = Throws \<or>
     (\<exists>bytes. hexToBytes' privateKeyHex = Returns bytes \<and>
              (\<forall>eventTemplate. finalizeEvent eventTemplate bytes = Throws))"
    by blast+
  show "createNoteEvent hexToBytes' finalizeEvent now s content_arg tags_arg = Inr None"
    using k ne rej by (rule rejected_key_null)
  show "createReactionEvent hexToBytes' finalizeEvent now s eventId pk reaction = Inr None"
    using k ne rej by (rule rejected_key_null)
  show "updateUserMetadata hexToBytes' finalizeEvent publish stringify now s metadata relayUrls =
        Inr None"
    using k ne rej by (rule rejected_key_null)
qed

theorem create_event_without_usable_key_witness:
  "(getPrivateKey fresh_state = None \<or> getPrivateKey fresh_state = Some []) \<and>
   createNoteEvent hexToBytes_accepting finalizeEvent_rejecting 1700000000000 fresh_state
     ''hello'' [] = Inl NoPrivateKeyAvailable \<and>
   getPrivateKey keyed_state = Some ''zz'' \<and> ''zz'' \<noteq> [] \<and>
   hexToBytes_accepting ''zz'' = Returns (map of_char ''zz'') \<and>
   (\<forall>eventTemplate. finalizeEvent_rejecting eventTemplate (map of_char ''zz'') = Throws) \<and>
   createNoteEvent hexToBytes_accepting finalizeEvent_rejecting 1700000000000 keyed_state
     ''hello'' [] = Inr None"
proof -
  have a: "getPrivateKey fresh_state = None \<or> getPrivateKey fresh_state = Some []"
    by (simp add: getPrivateKey_def fresh_state_def)
  have b: "getPrivateKey keyed_state = Some ''zz''" "''zz'' \<noteq> []"
    by (simp_all add: getPrivateKey_def keyed_state_def fresh_state_def)
  have c: "hexToBytes_accepting ''zz'' = Returns (map of_char ''zz'')"
    by (simp add: hexToBytes_accepting_def)
  have d: "\<forall>eventTemplate. finalizeEvent_rejecting eventTemplate (map of_char ''zz'') = Throws"
    by (simp add: finalizeEvent_rejecting_def)
  note thm1 = create_event_without_usable_key
            [where s = fresh_state and hexToBytes' = hexToBytes_accepting
               and finalizeEvent = finalizeEvent_rejecting and now = 1700000000000
               and content_arg = "''hello''" and tags_arg = "[]" and privateKeyHex = "''zz''"
               and eventId = "''0b''" and pk = "''ab''" and reaction = "''+''"
               and publish = publish_one_down and stringify = id and metadata = "''{}''"
               and relayUrls = "[''wss://nos.lol'']"]
  note thm2 = create_event_without_usable_key
            [where s = keyed_state and hexToBytes' = hexToBytes_accepting
               and finalizeEvent = finalizeEvent_rejecting and now = 1700000000000
               and content_arg = "''hello''" and tags_arg = "[]" and privateKeyHex = "''zz''"
               and eventId = "''0b''" and pk = "''ab''" and reaction = "''+''"
               and publish = publish_one_down and stringify = id and metadata = "''{}''"
               and relayUrls = "[''wss://nos.lol'']"]
  have 1: "createNoteEvent hexToBytes_accepting finalizeEvent_rejecting 1700000000000 fresh_state
     ''hello'' [] = Inl NoPrivateKeyAvailable"
    using thm1 a by blast
  have r: "getPrivateKey keyed_state = Some ''zz'' \<and> ''zz'' \<noteq> [] \<and>
    (hexToBytes_accepting ''zz'' = Throws \<or>
     (\<exists>bytes. hexToBytes_accepting ''zz'' = Returns bytes \<and>
              (\<forall>eventTemplate. finalizeEvent_rejecting eventTemplate bytes = Throws)))"
    using b c d by blast
  have 2: "createNoteEvent hexToBytes_accepting finalizeEvent_rejecting 1700000000000 keyed_state
     ''hello'' [] = Inr None"
    using thm2 r by blast
  from a b c d 1 2 show ?thesis by (intro conjI) assumption+
qed

text \<open>
  The claim as written fails: with a stored key that the package rejects, the three
  operations return \<^verbatim>\<open>null\<close> where the claim has them fail with a signing error.
\<close>

theorem create_event_signing_failure_counterexample:
  "createNoteEvent hexToBytes_rejecting finalizeEvent_rejecting 1700000000000 keyed_state
     ''hello'' [] = Inr None \<and>
   createNoteEvent hexToBytes_accepting finalizeEvent_rejecting 1700000000000 keyed_state
     ''hello'' [] = Inr None \<and>
   createReactionEvent hexToBytes_accepting finalizeEvent_rejecting 1700000000000 keyed_state
     ''0b'' ''ab'' ''+'' = Inr None \<and>
   updateUserMetadata hexToBytes_accepting finalizeEvent_rejecting publish_one_down id
     1700000000000 keyed_state ''{}'' [''wss://nos.lol''] = Inr None"
  by (simp add: createNoteEvent_def createReactionEvent_def updateUserMetadata_def
        sign_template_def getPrivateKey_def keyed_state_def fresh_state_def
        hexToBytes_rejecting_def hexToBytes_accepting_def finalizeEvent_rejecting_def)


section \<open>Round trip of the key encodings\<close>

lemma asciiToBase16_lower:
  "c \<in> set ''0123456789abcdef'' \<Longrightarrow>
   \<exists>n. asciiToBase16 c = Some n \<and> n < 16 \<and> ''0123456789abcdef'' ! n = c"
  by (auto simp: asciiToBase16_def)

lemma hexes_pair: "n2 < 16 \<Longrightarrow> hexes (n1 * 16 + n2) =
   [''0123456789abcdef'' ! n1, ''0123456789abcdef'' ! n2]"
  by (simp add: hexes_def)

lemma hexToBytes_lower:
  "even (length s) \<Longrightarrow> \<forall>c\<in>set s. c \<in> set ''0123456789abcdef'' \<Longrightarrow>
   \<exists>bytes. hexToBytes s = Returns bytes \<and> bytesToHex bytes = s \<and>
     length bytes = length s div 2 \<and> (\<forall>b\<in>set bytes. b < 256)"
proof (induction s rule: induct_list012)
  case 1
  then show ?case by (simp add: bytesToHex_def)
next
  case (2 c)
  then show ?case by simp
next
  case (3 c1 c2 cs)
  obtain n1 where n1: "asciiToBase16 c1 = Some n1" "n1 < 16"
    "''0123456789abcdef'' ! n1 = c1"
    using asciiToBase16_lower [of c1] "3.prems" by auto
  obtain n2 where n2: "asciiToBase16 c2 = Some n2" "n2 < 16"
    "''0123456789abcdef'' ! n2 = c2"
    using asciiToBase16_lower [of c2] "3.prems" by auto
  have "even (length cs)" "\<forall>c\<in>set cs. c \<in> set ''0123456789abcdef''"
    using "3.prems" by simp_all
  then obtain bytes where b: "hexToBytes cs = Returns bytes" "bytesToHex bytes = cs"
    "length bytes = length cs div 2" "\<forall>b\<in>set bytes. b < 256"
    using "3.IH"(1) by blast
  have h: "hexToBytes (c1 # c2 # cs) = Returns ((n1 * 16 + n2) # bytes)"
    using n1(1) n2(1) b(1) by simp
  have "bytesToHex ((n1 * 16 + n2) # bytes) = c1 # c2 # cs"
    using b(2) n1(3) n2(3) hexes_pair [OF n2(2), of n1] by (simp add: bytesToHex_def)
  moreover have "n1 * 16 + n2 < 256" using n1(2) n2(2) by simp
  ultimately show ?case using h b(3,4) by simp
qed

lemma length_to_bits: "length (to_bits w n) = w"
  by (induction w) auto

lemma from_bits_foldl:
  "foldl (\<lambda>a b. 2 * a + (if b then 1 else 0)) a bs =
     a * 2 ^ length bs + foldl (\<lambda>a b. 2 * a + (if b then 1 else 0)) (0::nat) bs"
proof (induction bs arbitrary: a)
  case Nil
  then show ?case by simp
next
  case (Cons b bs)
  let ?f = "\<lambda>a b. 2 * a + (if b then 1 else (0::nat))"
  let ?d = "if b then 1 else (0::nat)"
  have "foldl ?f a (b # bs) = foldl ?f (2 * a + ?d) bs" by simp
  also have "\<dots> = (2 * a + ?d) * 2 ^ length bs + foldl ?f 0 bs" by (rule Cons.IH)
  finally have l: "foldl ?f a (b # bs) = (2 * a + ?d) * 2 ^ length bs + foldl ?f 0 bs" .
  have "foldl ?f 0 (b # bs) = foldl ?f ?d bs" by simp
  also have "\<dots> = ?d * 2 ^ length bs + foldl ?f 0 bs" by (rule Cons.IH)
  finally have r: "foldl ?f 0 (b # bs) = ?d * 2 ^ length bs + foldl ?f 0 bs" .
  show ?case unfolding l r by (simp add: algebra_simps)
qed

lemma from_bits_Nil: "from_bits [] = 0"
  by (simp add: from_bits_def)

lemma from_bits_Cons: "from_bits (b # bs) = (if b then 2 ^ length bs else 0) + from_bits bs"
proof -
  let ?f = "\<lambda>a b. 2 * a + (if b then 1 else (0::nat))"
  have "foldl ?f 0 (b # bs) = foldl ?f (if b then 1 else 0) bs" by simp
  also have "\<dots> = (if b then 1 else 0) * 2 ^ length bs + foldl ?f 0 bs"
    by (rule from_bits_foldl)
  finally show ?thesis by (simp add: from_bits_def)
qed

lemma from_bits_less: "from_bits bs < 2 ^ length bs"
  by (induction bs) (auto simp: from_bits_Nil from_bits_Cons)

lemma to_bits_above: "to_bits v (k * 2 ^ v + m) = to_bits v m"
proof (induction v arbitrary: k)
  case 0
  then show ?case by simp
next
  case (Suc u)
  have e: "k * 2 ^ Suc u + m = (2 * k) * 2 ^ u + m" by simp
  have "((2 * k) * 2 ^ u + m) div 2 ^ u = 2 * k + m div 2 ^ u"
    by (rule div_mult_self3) simp
  then have hd: "odd ((k * 2 ^ Suc u + m) div 2 ^ u) = odd (m div 2 ^ u)"
    unfolding e by simp
  have tl: "to_bits u (k * 2 ^ Suc u + m) = to_bits u m"
    unfolding e by (rule Suc.IH)
  show ?case using hd tl by simp
qed

lemma to_bits_from_bits: "length bs = w \<Longrightarrow> to_bits w (from_bits bs) = bs"
proof (induction bs arbitrary: w)
  case Nil
  then show ?case by simp
next
  case (Cons b bs)
  then obtain v where w: "w = Suc v" "length bs = v" by auto
  have lt: "from_bits bs < 2 ^ v" using from_bits_less [of bs] w by simp
  have fb: "from_bits (b # bs) = (if b then 1 else 0) * 2 ^ v + from_bits bs"
    using w by (simp add: from_bits_Cons)
  have "from_bits (b # bs) div 2 ^ v = (if b then 1 else 0)"
    unfolding fb using lt by simp
  then have hd: "odd (from_bits (b # bs) div 2 ^ v) = b" by simp
  have tl: "to_bits v (from_bits (b # bs)) = to_bits v (from_bits bs)"
    unfolding fb by (rule to_bits_above)
  show ?case unfolding w using hd tl Cons.IH [OF w(2)] by simp
qed

lemma from_bits_to_bits: "n < 2 ^ w \<Longrightarrow> from_bits (to_bits w n) = n"
proof (induction w arbitrary: n)
  case 0
  then show ?case by (simp add: from_bits_Nil)
next
  case (Suc u)
  let ?m = "n mod 2 ^ u"
  have n: "n = (n div 2 ^ u) * 2 ^ u + ?m" by (rule div_mult_mod_eq [symmetric])
  have d: "n div 2 ^ u < 2" using Suc.prems by (simp add: less_mult_imp_div_less)
  have tb: "to_bits u n = to_bits u ?m"
    by (subst n) (rule to_bits_above)
  have ih: "from_bits (to_bits u ?m) = ?m" by (rule Suc.IH) simp
  have "from_bits (to_bits (Suc u) n) = (if odd (n div 2 ^ u) then 2 ^ u else 0) + ?m"
    by (simp add: from_bits_Cons length_to_bits tb ih)
  also have "(if odd (n div 2 ^ u) then 2 ^ u else 0) = (n div 2 ^ u) * 2 ^ u"
    using d by (cases "n div 2 ^ u = 0") (auto simp: less_2_cases_iff)
  finally show ?case using n by simp
qed

lemma groups_Nil: "groups n [] = []"
  by (simp add: groups.simps)

lemma groups_step: "n > 0 \<Longrightarrow> xs \<noteq> [] \<Longrightarrow> groups n xs = take n xs # groups n (drop n xs)"
  by (subst groups.simps) simp

lemma concat_groups: "n > 0 \<Longrightarrow> concat (groups n xs) = xs"
proof (induction n xs rule: groups.induct)
  case (1 n xs)
  show ?case
  proof (cases "xs = []")
    case True
    then show ?thesis by (simp add: groups_Nil)
  next
    case False
    then show ?thesis using 1 by (simp add: groups_step)
  qed
qed

lemma groups_concat:
  "n > 0 \<Longrightarrow> \<forall>g\<in>set xss. length g = n \<Longrightarrow> groups n (concat xss) = xss"
proof (induction xss)
  case Nil
  then show ?case by (simp add: groups_Nil)
next
  case (Cons g xss)
  have g: "length g = n" using Cons.prems(2) by simp
  then have ne: "g @ concat xss \<noteq> []" using Cons.prems(1) by auto
  have "groups n (g @ concat xss) = take n (g @ concat xss) # groups n (drop n (g @ concat xss))"
    using Cons.prems(1) ne by (rule groups_step)
  also have "\<dots> = g # groups n (concat xss)" using g by simp
  also have "groups n (concat xss) = xss" using Cons.IH Cons.prems by simp
  finally show ?case by simp
qed

lemma groups_lengths:
  "n > 0 \<Longrightarrow> n dvd length xs \<Longrightarrow> \<forall>g\<in>set (groups n xs). length g = n"
proof (induction n xs rule: groups.induct)
  case (1 n xs)
  show ?case
  proof (cases "xs = []")
    case True
    then show ?thesis by (simp add: groups_Nil)
  next
    case False
    have "0 < length xs" using False by simp
    with "1.prems"(2) have le: "n \<le> length xs" by (rule dvd_imp_le)
    have "n dvd length xs - n" using "1.prems"(2) by (rule dvd_diff_nat) simp
    then have d: "n dvd length (drop n xs)" by simp
    have "\<not> (n = 0 \<or> xs = [])" using False "1.prems"(1) by simp
    then have ih: "\<forall>g\<in>set (groups n (drop n xs)). length g = n"
      using "1.prems"(1) d by (rule "1.IH")
    have st: "groups n xs = take n xs # groups n (drop n xs)"
      using "1.prems"(1) False by (rule groups_step)
    have "length (take n xs) = n" using le by simp
    then show ?thesis unfolding st using ih by simp
  qed
qed

lemma length_groups_le: "n > 0 \<Longrightarrow> length (groups n xs) \<le> length xs"
proof (induction n xs rule: groups.induct)
  case (1 n xs)
  show ?case
  proof (cases "xs = []")
    case True
    then show ?thesis by (simp add: groups_Nil)
  next
    case False
    have ih: "length (groups n (drop n xs)) \<le> length (drop n xs)"
      using "1.IH" False "1.prems" by simp
    have pos: "length xs > 0" using False by simp
    have "length (drop n xs) < length xs" using pos "1.prems" by simp
    then have "Suc (length (groups n (drop n xs))) \<le> length xs"
      using ih by linarith
    then show ?thesis using False "1.prems" by (simp add: groups_step)
  qed
qed

lemma length_concat_to_bits: "length (concat (map (to_bits w) xs)) = w * length xs"
  by (induction xs) (simp_all add: length_to_bits)

lemma pad_to_five: "5 dvd n + (5 - n mod 5) mod 5" for n :: nat
proof -
  have "n mod 5 < 5" by simp
  then consider "n mod 5 = 0" | "n mod 5 = 1" | "n mod 5 = 2" | "n mod 5 = 3" | "n mod 5 = 4"
    by linarith
  then have "(n + (5 - n mod 5) mod 5) mod 5 = 0"
  proof cases
    case 1 then show ?thesis by (simp add: mod_add_eq [symmetric])
  next
    case 2 then show ?thesis by (subst mod_add_left_eq [symmetric]) simp
  next
    case 3 then show ?thesis by (subst mod_add_left_eq [symmetric]) simp
  next
    case 4 then show ?thesis by (subst mod_add_left_eq [symmetric]) simp
  next
    case 5 then show ?thesis by (subst mod_add_left_eq [symmetric]) simp
  qed
  then show ?thesis by (simp add: mod_eq_0_iff_dvd)
qed

lemma words_roundtrip:
  assumes "\<forall>b\<in>set bytes. b < 256"
  shows "\<exists>ws. toWords bytes = Returns ws \<and> (\<forall>w\<in>set ws. w < 32) \<and>
           length ws \<le> 8 * length bytes + 4 \<and> fromWords ws = Returns bytes"
proof -
  define B where "B = concat (map (to_bits 8) bytes)"
  define pad where "pad = replicate ((5 - length B mod 5) mod 5) False"
  define G where "G = groups 5 (B @ pad)"
  define ws where "ws = map from_bits G"
  have lB: "length B = 8 * length bytes" unfolding B_def by (rule length_concat_to_bits)
  have lp: "length pad = (5 - length B mod 5) mod 5" unfolding pad_def by simp
  have p4: "length pad < 5" unfolding lp by simp
  have dv: "5 dvd length (B @ pad)" using pad_to_five [of "length B"] lp by simp
  have gl: "\<forall>g\<in>set G. length g = 5" unfolding G_def by (rule groups_lengths) (simp, rule dv)
  have no_big: "\<not> (\<exists>b\<in>set bytes. b \<ge> 256)" using assms by auto
  have tw: "toWords bytes = Returns ws"
    unfolding toWords_def ws_def G_def pad_def B_def Let_def using no_big by simp
  have small: "\<forall>w\<in>set ws. w < 32"
  proof
    fix w assume "w \<in> set ws"
    then obtain g where g: "g \<in> set G" "w = from_bits g" unfolding ws_def by auto
    then have "length g = 5" using gl by blast
    then show "w < 32" using from_bits_less [of g] g(2) by simp
  qed
  have "length G \<le> length (B @ pad)" unfolding G_def by (rule length_groups_le) simp
  then have len: "length ws \<le> 8 * length bytes + 4"
    unfolding ws_def using lB p4 by simp
  have "map (to_bits 5) ws = map (\<lambda>g. to_bits 5 (from_bits g)) G"
    unfolding ws_def by simp
  also have "\<dots> = map (\<lambda>g. g) G"
    by (rule map_cong [OF refl]) (simp add: gl to_bits_from_bits)
  finally have "map (to_bits 5) ws = G" by simp
  then have bits: "concat (map (to_bits 5) ws) = B @ pad"
    unfolding G_def by (simp add: concat_groups)
  have n: "length (B @ pad) div 8 = length bytes" using lB p4 by simp
  have tk: "take (8 * length bytes) (B @ pad) = B" using lB by simp
  have dr: "drop (8 * length bytes) (B @ pad) = pad" using lB by simp
  have "groups 8 B = map (to_bits 8) bytes"
    unfolding B_def by (rule groups_concat) (simp_all add: length_to_bits)
  then have "map from_bits (groups 8 B) = map (\<lambda>b. from_bits (to_bits 8 b)) bytes"
    by simp
  also have "\<dots> = map (\<lambda>b. b) bytes"
    by (rule map_cong [OF refl]) (simp add: assms from_bits_to_bits)
  finally have res: "map from_bits (groups 8 B) = bytes" by simp
  have no_big_w: "\<not> (\<exists>w\<in>set ws. w \<ge> 32)" using small by auto
  have rest_ok: "\<not> length pad \<ge> 5" "True \<notin> set pad"
    using p4 unfolding pad_def by auto
  have "fromWords ws = Returns bytes"
    unfolding fromWords_def bits Let_def n tk dr res using no_big_w rest_ok by simp
  with tw small len show ?thesis by blast
qed

lemma indexOf_nth: "distinct xs \<Longrightarrow> i < length xs \<Longrightarrow> indexOf (xs ! i) xs = Some i"
proof (induction xs arbitrary: i)
  case Nil
  then show ?case by simp
next
  case (Cons x xs)
  show ?case
  proof (cases i)
    case 0
    then show ?thesis by simp
  next
    case (Suc k)
    then have k: "k < length xs" using Cons.prems(2) by simp
    then have "xs ! k \<in> set xs" by simp
    then have "x \<noteq> xs ! k" using Cons.prems(1) by auto
    then show ?thesis using Suc Cons.IH [OF _ k] Cons.prems(1) by simp
  qed
qed

lemma distinct_BECH_ALPHABET: "distinct BECH_ALPHABET"
  by (simp add: BECH_ALPHABET_def)

lemma length_BECH_ALPHABET: "length BECH_ALPHABET = 32"
  by (simp add: BECH_ALPHABET_def)

lemma alphabet_decode_letters:
  "\<forall>w\<in>set ws. w < 32 \<Longrightarrow> alphabet_decode (map (\<lambda>w. BECH_ALPHABET ! w) ws) = Returns ws"
proof (induction ws)
  case Nil
  then show ?case by simp
next
  case (Cons w ws)
  have "indexOf (BECH_ALPHABET ! w) BECH_ALPHABET = Some w"
    using Cons.prems by (intro indexOf_nth distinct_BECH_ALPHABET) (simp add: length_BECH_ALPHABET)
  then show ?case using Cons by simp
qed

lemma letters_in_alphabet:
  "\<forall>w\<in>set ws. w < 32 \<Longrightarrow> set (map (\<lambda>w. BECH_ALPHABET ! w) ws) \<subseteq> set BECH_ALPHABET"
  by (auto simp: length_BECH_ALPHABET)

lemma one_not_in_alphabet: "CHR ''1'' \<notin> set BECH_ALPHABET"
  by (simp add: BECH_ALPHABET_def)

lemma alphabet_not_upper:
  "c \<in> set BECH_ALPHABET \<Longrightarrow> \<not> (65 \<le> (of_char c :: nat) \<and> (of_char c :: nat) \<le> 90)"
  by (auto simp: BECH_ALPHABET_def)

lemma toLowerCase_id:
  "\<forall>c\<in>set s. \<not> (65 \<le> (of_char c :: nat) \<and> (of_char c :: nat) \<le> 90) \<Longrightarrow> toLowerCase s = s"
  unfolding toLowerCase_def by (induction s) auto

lemma lastIndexOf_none: "c \<notin> set xs \<Longrightarrow> lastIndexOf c xs = None"
  by (induction xs) auto

lemma lastIndexOf_sep: "c \<notin> set ys \<Longrightarrow> lastIndexOf c (p @ c # ys) = Some (length p)"
  by (induction p) (auto simp: lastIndexOf_none)

lemma bechChecksum_letters:
  assumes "\<forall>c\<in>set prefix. \<not> ((of_char c :: nat) < 33 \<or> (of_char c :: nat) > 126)"
  shows "\<exists>cw. bechChecksum prefix ws = Returns (map (\<lambda>w. BECH_ALPHABET ! w) cw) \<and>
           length cw = 6 \<and> (\<forall>w\<in>set cw. w < 32)"
proof -
  have ok: "\<not> (\<exists>c\<in>set prefix. (of_char c :: nat) < 33 \<or> (of_char c :: nat) > 126)"
    using assms by blast
  obtain chk6 :: nat where
    c: "bechChecksum prefix ws =
          Returns (map (\<lambda>i. BECH_ALPHABET ! ((chk6 div 2 ^ (5 * (5 - i))) mod 32)) [0 ..< 6])"
    unfolding bechChecksum_def Let_def using ok by (simp only: if_False)
  let ?cw = "map (\<lambda>i. (chk6 div 2 ^ (5 * (5 - i))) mod 32) [0 ..< 6]"
  have "bechChecksum prefix ws = Returns (map (\<lambda>w. BECH_ALPHABET ! w) ?cw)"
    unfolding c by (simp only: map_map comp_def)
  moreover have "length ?cw = 6" by simp
  moreover have "\<forall>w\<in>set ?cw. w < 32" by simp
  ultimately show ?thesis by blast
qed

lemma bech32_roundtrip:
  assumes ne: "prefix \<noteq> []"
    and printable: "\<forall>c\<in>set prefix. \<not> ((of_char c :: nat) < 33 \<or> (of_char c :: nat) > 126)"
    and lower: "\<forall>c\<in>set prefix. \<not> (65 \<le> (of_char c :: nat) \<and> (of_char c :: nat) \<le> 90)"
    and no_sep: "CHR ''1'' \<notin> set prefix"
    and small: "\<forall>w\<in>set ws. w < 32"
    and fits: "length prefix + 7 + length ws \<le> size_limit"
  shows "\<exists>str. bech32_encode prefix ws size_limit = Returns str \<and>
           bech32_decode str size_limit = Returns (prefix, ws)"
proof -
  obtain cw where cw: "bechChecksum prefix ws = Returns (map (\<lambda>w. BECH_ALPHABET ! w) cw)"
    "length cw = 6" "\<forall>w\<in>set cw. w < 32"
    using bechChecksum_letters [OF printable] by blast
  define letters where "letters = map (\<lambda>w. BECH_ALPHABET ! w) ws"
  define checksum where "checksum = map (\<lambda>w. BECH_ALPHABET ! w) cw"
  define str where "str = prefix @ ''1'' @ letters @ checksum"
  have lp: "toLowerCase prefix = prefix" using lower by (rule toLowerCase_id)
  have ae: "alphabet_encode ws = Returns letters"
    unfolding alphabet_encode_def letters_def using small by auto
  have ck: "bechChecksum prefix ws = Returns checksum" unfolding checksum_def by (rule cw(1))
  have enc: "bech32_encode prefix ws size_limit = Returns str"
    unfolding bech32_encode_def Let_def lp ck ae str_def using ne fits by simp
  have l_letters: "length letters = length ws" unfolding letters_def by simp
  have l_checksum: "length checksum = 6" unfolding checksum_def using cw(2) by simp
  have l_str: "length str = length prefix + 7 + length ws"
    unfolding str_def using l_letters l_checksum by simp
  have tail_alpha: "set (letters @ checksum) \<subseteq> set BECH_ALPHABET"
    using letters_in_alphabet [OF small] letters_in_alphabet [OF cw(3)]
    unfolding letters_def checksum_def by simp
  have "\<forall>c\<in>set str. \<not> (65 \<le> (of_char c :: nat) \<and> (of_char c :: nat) \<le> 90)"
  proof
    fix c assume "c \<in> set str"
    then consider "c \<in> set prefix" | "c = CHR ''1''" | "c \<in> set (letters @ checksum)"
      unfolding str_def by auto
    then show "\<not> (65 \<le> (of_char c :: nat) \<and> (of_char c :: nat) \<le> 90)"
    proof cases
      case 1 then show ?thesis using lower by blast
    next
      case 2 then show ?thesis by simp
    next
      case 3 then show ?thesis using tail_alpha alphabet_not_upper by blast
    qed
  qed
  then have ls: "toLowerCase str = str" by (rule toLowerCase_id)
  have "CHR ''1'' \<notin> set (letters @ checksum)"
    using tail_alpha one_not_in_alphabet by blast
  then have "lastIndexOf CHR ''1'' (prefix @ CHR ''1'' # (letters @ checksum)) = Some (length prefix)"
    by (rule lastIndexOf_sep)
  then have sep: "lastIndexOf CHR ''1'' str = Some (length prefix)"
    unfolding str_def by simp
  have tk: "take (length prefix) str = prefix" unfolding str_def by simp
  have dr: "drop (length prefix + 1) str = letters @ checksum" unfolding str_def by simp
  have "alphabet_decode (map (\<lambda>w. BECH_ALPHABET ! w) (ws @ cw)) = Returns (ws @ cw)"
    by (rule alphabet_decode_letters) (use small cw(3) in auto)
  then have ad: "alphabet_decode (letters @ checksum) = Returns (ws @ cw)"
    unfolding letters_def checksum_def by simp
  have tw: "take (length (ws @ cw) - 6) (ws @ cw) = ws" using cw(2) by simp
  have dc: "drop (length (letters @ checksum) - length checksum) (letters @ checksum) = checksum"
    by simp
  have len_ok: "\<not> (length str < 8 \<or> length str > size_limit)"
    using l_str fits ne by (cases prefix) auto
  have p0: "length prefix \<noteq> 0" using ne by simp
  have l6: "\<not> length (letters @ checksum) < 6" using l_checksum by simp
  have dec: "bech32_decode str size_limit = Returns (prefix, ws)"
    unfolding bech32_decode_def Let_def ls sep
    using len_ok p0 l6
    by (simp only: if_False option.case tk dr ad call.case tw ck dc simp_thms if_True)
  from enc dec show ?thesis by blast
qed

lemma key_prefix_facts:
  "''npub'' \<noteq> []" "''nsec'' \<noteq> []"
  "\<forall>c\<in>set ''npub''. \<not> ((of_char c :: nat) < 33 \<or> (of_char c :: nat) > 126)"
  "\<forall>c\<in>set ''nsec''. \<not> ((of_char c :: nat) < 33 \<or> (of_char c :: nat) > 126)"
  "\<forall>c\<in>set ''npub''. \<not> (65 \<le> (of_char c :: nat) \<and> (of_char c :: nat) \<le> 90)"
  "\<forall>c\<in>set ''nsec''. \<not> (65 \<le> (of_char c :: nat) \<and> (of_char c :: nat) \<le> 90)"
  "CHR ''1'' \<notin> set ''npub''" "CHR ''1'' \<notin> set ''nsec''"
  by simp_all

lemma encodeBytes_decode:
  assumes "prefix = ''npub'' \<or> prefix = ''nsec''"
    and "\<forall>b\<in>set bytes. b < 256" and "length bytes = 32"
  shows "\<exists>str ws. encodeBytes prefix bytes = Returns str \<and>
           bech32_decode str Bech32MaxSize = Returns (prefix, ws) \<and>
           fromWords ws = Returns bytes"
proof -
  obtain ws where ws: "toWords bytes = Returns ws" "\<forall>w\<in>set ws. w < 32"
    "length ws \<le> 8 * length bytes + 4" "fromWords ws = Returns bytes"
    using words_roundtrip [OF assms(2)] by blast
  have fits: "length prefix + 7 + length ws \<le> Bech32MaxSize"
    using ws(3) assms(1,3) by (auto simp: Bech32MaxSize_def)
  have "\<exists>str. bech32_encode prefix ws Bech32MaxSize = Returns str \<and>
           bech32_decode str Bech32MaxSize = Returns (prefix, ws)"
    using assms(1)
  proof
    assume p: "prefix = ''npub''"
    show ?thesis unfolding p
      by (rule bech32_roundtrip [OF key_prefix_facts(1,3,5,7) ws(2)]) (use fits p in simp)
  next
    assume p: "prefix = ''nsec''"
    show ?thesis unfolding p
      by (rule bech32_roundtrip [OF key_prefix_facts(2,4,6,8) ws(2)]) (use fits p in simp)
  qed
  then obtain str where "bech32_encode prefix ws Bech32MaxSize = Returns str"
    "bech32_decode str Bech32MaxSize = Returns (prefix, ws)" by blast
  then show ?thesis using ws(1,4) by (auto simp: encodeBytes_def)
qed

lemma valid_key_bytes:
  assumes "valid_key k"
  shows "\<exists>bytes. hexToBytes k = Returns bytes \<and> bytesToHex bytes = k \<and>
           length bytes = 32 \<and> (\<forall>b\<in>set bytes. b < 256)"
proof -
  have "even (length k)" "\<forall>c\<in>set k. c \<in> set ''0123456789abcdef''" "length k = 64"
    using assms by (simp_all add: valid_key_def)
  then show ?thesis using hexToBytes_lower [of k] by auto
qed

lemma npub_roundtrip:
  assumes "valid_key pk"
  shows "\<exists>npub. hexToNpub pk = Returns npub \<and> npubToHex npub = Inr (HexData pk)"
proof -
  obtain bytes where b: "hexToBytes pk = Returns bytes" "bytesToHex bytes = pk"
    "length bytes = 32" "\<forall>b\<in>set bytes. b < 256"
    using valid_key_bytes [OF assms] by blast
  obtain str ws where s: "encodeBytes ''npub'' bytes = Returns str"
    "bech32_decode str Bech32MaxSize = Returns (''npub'', ws)" "fromWords ws = Returns bytes"
    using encodeBytes_decode [of "''npub''" bytes] b(3,4) by blast
  have e: "hexToNpub pk = Returns str"
    by (simp add: hexToNpub_def npubEncode_def b(1) s(1))
  have "nip19_decode str = Returns (''npub'', HexData pk)"
    by (simp add: nip19_decode_def s(2,3) b(2))
  then have "npubToHex str = Inr (HexData pk)" by (simp add: npubToHex_def)
  with e show ?thesis by blast
qed

lemma nsec_roundtrip:
  assumes "valid_key sk"
  shows "\<exists>nsec. hexToNsec sk = Returns nsec \<and> nsecToHex nsec = Inr sk"
proof -
  obtain bytes where b: "hexToBytes sk = Returns bytes" "bytesToHex bytes = sk"
    "length bytes = 32" "\<forall>b\<in>set bytes. b < 256"
    using valid_key_bytes [OF assms] by blast
  obtain str ws where s: "encodeBytes ''nsec'' bytes = Returns str"
    "bech32_decode str Bech32MaxSize = Returns (''nsec'', ws)" "fromWords ws = Returns bytes"
    using encodeBytes_decode [of "''nsec''" bytes] b(3,4) by blast
  have e: "hexToNsec sk = Returns str"
    by (simp add: hexToNsec_def nsecEncode_def b(1) s(1))
  have "nip19_decode str = Returns (''nsec'', BytesData bytes)"
    by (simp add: nip19_decode_def s(2,3))
  then have "nsecToHex str = Inr sk" by (simp add: nsecToHex_def b(2))
  with e show ?thesis by blast
qed

text \<open>
  Claim C8. For every key written as 64 lower-case hex digits, \<^verbatim>\<open>hexToNpub\<close> returns a
  string that \<^verbatim>\<open>npubToHex\<close> decodes to the same key, and \<^verbatim>\<open>hexToNsec\<close> returns a
  string that \<^verbatim>\<open>nsecToHex\<close> decodes to the same key.
\<close>

theorem key_display_roundtrip:
  assumes "valid_key pk" and "valid_key sk"
  shows "(\<exists>npub. hexToNpub pk = Returns npub \<and> npubToHex npub = Inr (HexData pk)) \<and>
         (\<exists>nsec. hexToNsec sk = Returns nsec \<and> nsecToHex nsec = Inr sk)"
  using npub_roundtrip [OF assms(1)] nsec_roundtrip [OF assms(2)] by blast

text \<open>The public and the private key of the examples in NIP-19.\<close>

theorem key_display_roundtrip_witness:
  "valid_key ''3bf0c63fcb93463407af97a5e5ee64fa883d107ef9e558472c4eb9aaaefa459d'' \<and>
   valid_key ''67dea2ed018072d675f5415ecfaed7d2597555e202d85b3d65ea4e58d2d92ffa'' \<and>
   (\<exists>npub. hexToNpub ''3bf0c63fcb93463407af97a5e5ee64fa883d107ef9e558472c4eb9aaaefa459d'' =
             Returns npub \<and>
           npubToHex npub =
             Inr (HexData ''3bf0c63fcb93463407af97a5e5ee64fa883d107ef9e558472c4eb9aaaefa459d'')) \<and>
   (\<exists>nsec. hexToNsec ''67dea2ed018072d675f5415ecfaed7d2597555e202d85b3d65ea4e58d2d92ffa'' =
             Returns nsec \<and>
           nsecToHex nsec =
             Inr ''67dea2ed018072d675f5415ecfaed7d2597555e202d85b3d65ea4e58d2d92ffa'')"
proof -
  have p: "valid_key ''3bf0c63fcb93463407af97a5e5ee64fa883d107ef9e558472c4eb9aaaefa459d''"
    by (simp add: valid_key_def)
  have s: "valid_key ''67dea2ed018072d675f5415ecfaed7d2597555e202d85b3d65ea4e58d2d92ffa''"
    by (simp add: valid_key_def)
  from key_display_roundtrip [OF p s] p s show ?thesis by blast
qed

end
